theory Spec2Isabelle
  imports Complex_Main "HOL-Library.Log_Nat"
begin

section \<open>Data model (src/src/types.ts)\<close>

text \<open>
  \<^verbatim>\<open>Metadata\<close>: every field is \<^verbatim>\<open>string | null\<close> or \<^verbatim>\<open>number | null\<close>.
  \<^verbatim>\<open>null\<close> (and \<^verbatim>\<open>undefined\<close>, which the code never tells apart from it) is \<open>None\<close>.
  The numbers are the integer year and tempo of a tag.
\<close>

record metadata =
  title :: "string option"
  artist :: "string option"
  album :: "string option"
  genre :: "string option"
  year :: "int option"
  bpm :: "int option"

datatype confidence = High | Medium | Low

text \<open>
  \<^verbatim>\<open>MetadataResult\<close>. Its fields \<^verbatim>\<open>genre\<close> and \<^verbatim>\<open>artist\<close> carry the prefix
  \<open>suggested_\<close> here, since \<^typ>\<open>metadata\<close> already owns the plain names.
\<close>

record metadata_result =
  suggested_genre :: "string option"
  suggested_artist :: "string option"
  confidence :: confidence
  source :: string

text \<open>\<^verbatim>\<open>EnhancedAudioFile extends AudioFile\<close>; an optional field that is missing is \<open>None\<close>.\<close>

record audio_file =
  path :: string
  filename :: string
  extension :: string
  current_metadata :: "metadata option"
  suggested_metadata :: "metadata_result list option"
  selected_genre :: "string option"

record app_settings =
  spotify_client_id :: string
  spotify_client_secret :: string
  folder_pattern :: string
  backup_before_changes :: bool
  organize_files :: bool
  rename_files :: bool

section \<open>JavaScript values\<close>

text \<open>
  Truthiness, as \<^verbatim>\<open>||\<close>, \<^verbatim>\<open>&&\<close> and \<^verbatim>\<open>if\<close> test it: \<^verbatim>\<open>null\<close>, \<^verbatim>\<open>undefined\<close>, the
  empty string and the number 0 are falsy.
\<close>

definition truthy_str :: "string option \<Rightarrow> bool" where
  "truthy_str v = (case v of None \<Rightarrow> False | Some s \<Rightarrow> s \<noteq> [])"

definition truthy_num :: "int option \<Rightarrow> bool" where
  "truthy_num v = (case v of None \<Rightarrow> False | Some n \<Rightarrow> n \<noteq> 0)"

text \<open>\<^verbatim>\<open>a || b\<close> on strings and on numbers.\<close>

definition or_str :: "string option \<Rightarrow> string option \<Rightarrow> string option" where
  "or_str a b = (if truthy_str a then a else b)"

definition or_num :: "int option \<Rightarrow> int option \<Rightarrow> int option" where
  "or_num a b = (if truthy_num a then a else b)"

text \<open>\<^verbatim>\<open>m?.field\<close> on a \<^verbatim>\<open>Metadata | null\<close>.\<close>

definition opt_chain :: "(metadata \<Rightarrow> 'a option) \<Rightarrow> metadata option \<Rightarrow> 'a option" where
  "opt_chain field m = (case m of None \<Rightarrow> None | Some v \<Rightarrow> field v)"

text \<open>
  \<^verbatim>\<open>s.split(sep)\<close> for a one-character separator: the segments between the separators,
  never an empty array.  \<^verbatim>\<open>xs.pop()\<close> returns the last element, \<^verbatim>\<open>undefined\<close> on an
  empty array.
\<close>

fun split_js :: "char \<Rightarrow> string \<Rightarrow> string list" where
  "split_js sep [] = [[]]"
| "split_js sep (c # cs) =
     (if c = sep then [] # split_js sep cs
      else (case split_js sep cs of
              [] \<Rightarrow> [[c]]
            | seg # segs \<Rightarrow> (c # seg) # segs))"

definition pop :: "string list \<Rightarrow> string option" where
  "pop xs = (if xs = [] then None else Some (last xs))"

text \<open>
  What a rejected \<^verbatim>\<open>invoke\<close> throws: an \<^verbatim>\<open>Error\<close> object with its message, or any
  other value, kept as the string \<^verbatim>\<open>String(error)\<close> makes of it.
\<close>

datatype thrown = ErrorObject string | OtherValue string

text \<open>\<^verbatim>\<open>error instanceof Error ? error.message : String(error)\<close>\<close>

fun errorMsg_of :: "thrown \<Rightarrow> string" where
  "errorMsg_of (ErrorObject message) = message"
| "errorMsg_of (OtherValue s) = s"

text \<open>A count inside a template literal: the decimal digits of a natural number.\<close>

definition digit_char :: "nat \<Rightarrow> char" where
  "digit_char d = ''0123456789'' ! d"

fun show_nat :: "nat \<Rightarrow> string" where
  "show_nat n = (if n < 10 then [digit_char n] else show_nat (n div 10) @ [digit_char (n mod 10)])"

declare show_nat.simps [simp del]

subsection \<open>Numbers\<close>

text \<open>
  A JavaScript number is a binary64 value.  The progress arithmetic is modelled on the
  rationals with the rounding of every operation written out: \<open>fl x\<close> is the value with
  a 53-bit significand nearest to \<open>x\<close>, ties to the even significand.  The exponent is
  not bounded; the operands of the progress formulas (an index, a length, 50 and 100)
  stay far inside the normal range.  An array index and an array length are integers
  below \<open>2^32\<close>, hence binary64 values as they are.
\<close>

definition round_ties_even :: "rat \<Rightarrow> int" where
  "round_ties_even m =
     (let f = \<lfloor>m\<rfloor>; d = m - of_int f
      in if d < 1 / 2 then f
         else if 1 / 2 < d then f + 1
         else if even f then f else f + 1)"

text \<open>The binade of a positive \<open>x\<close>: the \<open>e\<close> with \<open>2^e \<le> x < 2^(e+1)\<close>.\<close>

definition binade :: "rat \<Rightarrow> int" where
  "binade x =
     (if 1 \<le> x then int (floorlog 2 (nat \<lfloor>x\<rfloor>)) - 1
      else - int (floorlog 2 (nat (\<lceil>1 / x\<rceil> - 1))))"

definition fl :: "rat \<Rightarrow> rat" where
  "fl x =
     (if x = 0 then 0
      else (let u = 2 powi (binade \<bar>x\<bar> - 52)
            in of_int (round_ties_even (x / u)) * u))"

definition js_add :: "rat \<Rightarrow> rat \<Rightarrow> rat" where
  "js_add a b = fl (a + b)"

definition js_mul :: "rat \<Rightarrow> rat \<Rightarrow> rat" where
  "js_mul a b = fl (a * b)"

text \<open>Division by a divisor other than 0 (the loops divide by a length they are below).\<close>

definition js_div :: "rat \<Rightarrow> rat \<Rightarrow> rat" where
  "js_div a b = fl (a / b)"

section \<open>The backend commands behind \<^verbatim>\<open>invoke\<close>\<close>

text \<open>
  The four Tauri commands are not part of the front end.  Each is a parameter: a function
  of its arguments and of the state \<open>'w\<close> of everything behind the boundary (disk,
  network), returning the value the promise resolves to, or what it rejects with, and
  the next state.  The command \<^verbatim>\<open>organize_files\<close> is the field \<open>organize\<close>, the setting
  of that name being a field of \<^typ>\<open>app_settings\<close>.
\<close>

record 'w backend =
  fetch_metadata :: "string \<Rightarrow> string \<Rightarrow> 'w \<Rightarrow> (thrown + metadata_result list) \<times> 'w"
  update_metadata :: "string \<Rightarrow> metadata \<Rightarrow> bool \<Rightarrow> 'w \<Rightarrow> (thrown + unit) \<times> 'w"
  rename_file :: "string \<Rightarrow> metadata \<Rightarrow> 'w \<Rightarrow> (thrown + string) \<times> 'w"
  organize :: "string \<Rightarrow> metadata \<Rightarrow> string \<Rightarrow> 'w \<Rightarrow> (thrown + string) \<times> 'w"

text \<open>One entry per \<^verbatim>\<open>invoke\<close>, with its arguments.\<close>

datatype call =
  FetchMetadata string string
| UpdateMetadata string metadata bool
| RenameFile string metadata
| OrganizeFiles string metadata string

text \<open>
  What a handler does to the outside: the backend state, the trace of the calls made so
  far (oldest first), the progress value, and every value given to \<^verbatim>\<open>setProgress\<close>
  so far (oldest first).
\<close>

record 'w effects =
  world :: 'w
  calls :: "call list"
  progress :: rat
  progress_log :: "rat list"

definition setProgress :: "rat \<Rightarrow> ('w, 'z) effects_scheme \<Rightarrow> ('w, 'z) effects_scheme" where
  "setProgress v st = st\<lparr>progress := v, progress_log := progress_log st @ [v]\<rparr>"

definition invoke_fetch_metadata ::
  "'w backend \<Rightarrow> string \<Rightarrow> string \<Rightarrow> ('w, 'z) effects_scheme
     \<Rightarrow> (thrown + metadata_result list) \<times> ('w, 'z) effects_scheme" where
  "invoke_fetch_metadata B a t st =
     (let (r, w) = fetch_metadata B a t (world st)
      in (r, st\<lparr>world := w, calls := calls st @ [FetchMetadata a t]\<rparr>))"

definition invoke_update_metadata ::
  "'w backend \<Rightarrow> string \<Rightarrow> metadata \<Rightarrow> bool \<Rightarrow> ('w, 'z) effects_scheme
     \<Rightarrow> (thrown + unit) \<times> ('w, 'z) effects_scheme" where
  "invoke_update_metadata B p md b st =
     (let (r, w) = update_metadata B p md b (world st)
      in (r, st\<lparr>world := w, calls := calls st @ [UpdateMetadata p md b]\<rparr>))"

definition invoke_rename_file ::
  "'w backend \<Rightarrow> string \<Rightarrow> metadata \<Rightarrow> ('w, 'z) effects_scheme
     \<Rightarrow> (thrown + string) \<times> ('w, 'z) effects_scheme" where
  "invoke_rename_file B p md st =
     (let (r, w) = rename_file B p md (world st)
      in (r, st\<lparr>world := w, calls := calls st @ [RenameFile p md]\<rparr>))"

definition invoke_organize_files ::
  "'w backend \<Rightarrow> string \<Rightarrow> metadata \<Rightarrow> string \<Rightarrow> ('w, 'z) effects_scheme
     \<Rightarrow> (thrown + string) \<times> ('w, 'z) effects_scheme" where
  "invoke_organize_files B p md base st =
     (let (r, w) = organize B p md base (world st)
      in (r, st\<lparr>world := w, calls := calls st @ [OrganizeFiles p md base]\<rparr>))"

section \<open>The apply pass (src/src/App.tsx, \<^verbatim>\<open>handleApplyChanges\<close>)\<close>

text \<open>
  The locals of the handler: the three counters, the error list, and \<^verbatim>\<open>updatedFiles\<close>.
  \<^verbatim>\<open>updatedFiles = [...files]\<close> copies the array, not the objects, so \<^verbatim>\<open>files[i]\<close> and
  \<^verbatim>\<open>updatedFiles[i]\<close> are one object.  The objects of an inventory are pairwise distinct
  (they are deserialised one by one), iteration \<open>i\<close> writes to object \<open>i\<close> only, and every
  field it reads through \<^verbatim>\<open>file\<close> is read before that field is written; so reading
  \<^verbatim>\<open>file\<close> from the list the handler was given is reading the shared object.
\<close>

record 'w apply_state = "'w effects" +
  successCount :: nat
  errorCount :: nat
  organizedCount :: nat
  errors :: "string list"
  updatedFiles :: "audio_file list"

text \<open>The object literal \<^verbatim>\<open>updatedMetadata\<close> (lines 119 to 126).\<close>

definition updatedMetadata :: "audio_file \<Rightarrow> string option \<Rightarrow> string option \<Rightarrow> metadata" where
  "updatedMetadata file suggestedGenre suggestedArtist =
     \<lparr> title = or_str (opt_chain title (current_metadata file)) None,
       artist = or_str (or_str suggestedArtist (opt_chain artist (current_metadata file))) None,
       album = or_str (opt_chain album (current_metadata file)) None,
       genre = or_str (or_str suggestedGenre (opt_chain genre (current_metadata file))) None,
       year = or_num (opt_chain year (current_metadata file)) None,
       bpm = or_num (opt_chain bpm (current_metadata file)) None \<rparr>"

text \<open>
  Lines 138 to 150: the rename step, run after a successful write.  It returns
  \<^verbatim>\<open>currentPath\<close> with the state.
\<close>

definition rename_step ::
  "'w backend \<Rightarrow> app_settings \<Rightarrow> nat \<Rightarrow> metadata \<Rightarrow> string \<Rightarrow> 'w apply_state
     \<Rightarrow> string \<times> 'w apply_state" where
  "rename_step B settings i md currentPath st =
     (if rename_files settings then
        (case invoke_rename_file B currentPath md st of
           (Inr newPath, st1) \<Rightarrow>
             (newPath,
              st1\<lparr>updatedFiles := (updatedFiles st1)
                [i := (updatedFiles st1 ! i)
                   \<lparr>path := newPath,
                    filename := the (or_str (pop (split_js CHR ''/'' newPath))
                                            (Some (filename (updatedFiles st1 ! i))))\<rparr>]\<rparr>)
         | (Inl renError, st1) \<Rightarrow> (currentPath, st1))
      else (currentPath, st))"

text \<open>Lines 152 to 164: the organize step.\<close>

definition organize_step ::
  "'w backend \<Rightarrow> app_settings \<Rightarrow> string \<Rightarrow> nat \<Rightarrow> metadata \<Rightarrow> string \<Rightarrow> 'w apply_state
     \<Rightarrow> 'w apply_state" where
  "organize_step B settings selectedFolder i md currentPath st =
     (if organize_files settings \<and> selectedFolder \<noteq> [] then
        (case invoke_organize_files B currentPath md selectedFolder st of
           (Inr newPath, st1) \<Rightarrow>
             st1\<lparr>updatedFiles := (updatedFiles st1)[i := (updatedFiles st1 ! i)\<lparr>path := newPath\<rparr>],
                 organizedCount := organizedCount st1 + 1\<rparr>
         | (Inl orgError, st1) \<Rightarrow> st1)
      else st)"

text \<open>
  Lines 118 to 172: the outer \<^verbatim>\<open>try\<close> with its \<^verbatim>\<open>catch\<close>.  Only a rejected
  \<^verbatim>\<open>update_metadata\<close> reaches that \<^verbatim>\<open>catch\<close>: the two later calls sit in a \<^verbatim>\<open>try\<close> of
  their own.
\<close>

definition write_step ::
  "'w backend \<Rightarrow> app_settings \<Rightarrow> string \<Rightarrow> nat \<Rightarrow> audio_file \<Rightarrow> metadata \<Rightarrow> 'w apply_state
     \<Rightarrow> 'w apply_state" where
  "write_step B settings selectedFolder i file md st =
     (case invoke_update_metadata B (path file) md (backup_before_changes settings) st of
        (Inr u, st1) \<Rightarrow>
          (let st2 = st1\<lparr>updatedFiles := (updatedFiles st1)
                          [i := (updatedFiles st1 ! i)\<lparr>current_metadata := Some md\<rparr>]\<rparr>;
               (currentPath, st3) = rename_step B settings i md (path file) st2;
               st4 = organize_step B settings selectedFolder i md currentPath st3
           in st4\<lparr>successCount := successCount st4 + 1\<rparr>)
      | (Inl error, st1) \<Rightarrow>
          st1\<lparr>errors := errors st1 @ [filename file @ '': '' @ errorMsg_of error],
              errorCount := errorCount st1 + 1\<rparr>)"

text \<open>Lines 111 to 176: the body of the loop, for an index \<open>i\<close> below \<^verbatim>\<open>files.length\<close>.\<close>

definition apply_body ::
  "'w backend \<Rightarrow> app_settings \<Rightarrow> string \<Rightarrow> audio_file list \<Rightarrow> nat \<Rightarrow> 'w apply_state
     \<Rightarrow> 'w apply_state" where
  "apply_body B settings selectedFolder files i st =
     (let file = files ! i;
          st1 = (case suggested_metadata file of
                   Some (accepted # others) \<Rightarrow>
                     (let suggestedGenre = suggested_genre accepted;
                          suggestedArtist = suggested_artist accepted
                      in if truthy_str suggestedGenre \<or> truthy_str suggestedArtist
                         then write_step B settings selectedFolder i file
                                (updatedMetadata file suggestedGenre suggestedArtist) st
                         else st)
                 | _ \<Rightarrow> st)
      in setProgress (js_mul (js_div (of_nat (i + 1)) (of_nat (length files))) 100) st1)"

function apply_loop ::
  "'w backend \<Rightarrow> app_settings \<Rightarrow> string \<Rightarrow> audio_file list \<Rightarrow> nat \<Rightarrow> 'w apply_state
     \<Rightarrow> 'w apply_state" where
  "apply_loop B settings selectedFolder files i st =
     (if i < length files
      then apply_loop B settings selectedFolder files (Suc i)
             (apply_body B settings selectedFolder files i st)
      else st)"
  by pat_completeness auto
termination
  by (relation "measure (\<lambda>(B, settings, selectedFolder, files, i, st). length files - i)") auto

declare apply_loop.simps [simp del]

text \<open>Lines 185 to 191: the summary.\<close>

definition summary :: "nat \<Rightarrow> nat \<Rightarrow> nat \<Rightarrow> string" where
  "summary successes organized failed =
     ''Completed! '' @ show_nat successes @ '' files updated successfully''
     @ (if organized > 0 then '', '' @ show_nat organized @ '' organized'' else [])
     @ (if failed > 0 then '', '' @ show_nat failed @ '' failed'' else [])"

text \<open>
  The handler, from the state \<open>w\<close> of the backend: the locals and effects when the loop
  has ended (\<^verbatim>\<open>setFiles\<close> receives \<open>updatedFiles\<close>), and the status message.
\<close>

definition apply_init :: "audio_file list \<Rightarrow> 'w \<Rightarrow> 'w apply_state" where
  "apply_init files w =
     \<lparr> world = w, calls = [], progress = 0, progress_log = [0],
       successCount = 0, errorCount = 0, organizedCount = 0, errors = [],
       updatedFiles = files \<rparr>"

definition handleApplyChanges ::
  "'w backend \<Rightarrow> app_settings \<Rightarrow> string \<Rightarrow> audio_file list \<Rightarrow> 'w \<Rightarrow> 'w apply_state \<times> string" where
  "handleApplyChanges B settings selectedFolder files w =
     (let st = apply_loop B settings selectedFolder files 0 (apply_init files w)
      in (st, summary (successCount st) (organizedCount st) (errorCount st)))"

section \<open>The resolution pass (src/src/App.tsx, \<^verbatim>\<open>handleStartScan\<close>, lines 70 to 92)\<close>

record 'w scan_state = "'w effects" +
  scannedFiles :: "audio_file list"

text \<open>Lines 75 to 87: the body of the loop, for an index \<open>i\<close> below the length.\<close>

definition resolve_body :: "'w backend \<Rightarrow> nat \<Rightarrow> 'w scan_state \<Rightarrow> 'w scan_state" where
  "resolve_body B i st =
     (let file = scannedFiles st ! i;
          st1 = (if truthy_str (opt_chain artist (current_metadata file))
                    \<and> truthy_str (opt_chain title (current_metadata file))
                 then (case invoke_fetch_metadata B
                              (the (opt_chain artist (current_metadata file)))
                              (the (opt_chain title (current_metadata file))) st of
                         (Inr metadata, st2) \<Rightarrow>
                           st2\<lparr>scannedFiles := (scannedFiles st2)
                                 [i := (scannedFiles st2 ! i)\<lparr>suggested_metadata := Some metadata\<rparr>]\<rparr>
                       | (Inl error, st2) \<Rightarrow> st2)
                 else st)
      in setProgress
           (js_add 50 (js_mul (js_div (of_nat (i + 1)) (of_nat (length (scannedFiles st)))) 50))
           st1)"

function resolve_loop :: "'w backend \<Rightarrow> nat \<Rightarrow> 'w scan_state \<Rightarrow> 'w scan_state" where
  "resolve_loop B i st =
     (if i < length (scannedFiles st)
      then resolve_loop B (Suc i) (resolve_body B i st)
      else st)"
  by pat_completeness auto

termination
  by (relation "measure (\<lambda>(B, i, st). length (scannedFiles st) - i)")
     (auto simp: resolve_body_def setProgress_def invoke_fetch_metadata_def Let_def
           split: prod.splits sum.splits)

declare resolve_loop.simps [simp del]

text \<open>
  Lines 70 to 92, from the array \<^verbatim>\<open>scan_folder\<close> resolved to: the state when the handler
  is done, and the status message.  The progress log starts with the 10 of line 63 and
  the 50 of line 71.
\<close>

definition resolve_init :: "audio_file list \<Rightarrow> 'w \<Rightarrow> 'w scan_state" where
  "resolve_init scanned w =
     \<lparr> world = w, calls = [], progress = 50, progress_log = [10, 50],
       scannedFiles = scanned \<rparr>"

definition resolution_pass :: "'w backend \<Rightarrow> audio_file list \<Rightarrow> 'w \<Rightarrow> 'w scan_state \<times> string" where
  "resolution_pass B scanned w =
     (let st = resolve_loop B 0 (resolve_init scanned w)
      in (setProgress 100 st,
          ''Completed! Processed '' @ show_nat (length scanned) @ '' files''))"

section \<open>The state at the start of an iteration\<close>

text \<open>
  \<open>apply_prefix \<dots> k st\<close> is the state after the iterations \<open>0, \<dots>, k - 1\<close> of the apply
  loop, that is, the state in which iteration \<open>k\<close> starts; \<open>resolve_prefix\<close> is the same
  for the resolution loop.
\<close>

fun apply_prefix ::
  "'w backend \<Rightarrow> app_settings \<Rightarrow> string \<Rightarrow> audio_file list \<Rightarrow> nat \<Rightarrow> 'w apply_state
     \<Rightarrow> 'w apply_state" where
  "apply_prefix B settings selectedFolder files 0 st = st"
| "apply_prefix B settings selectedFolder files (Suc k) st =
     apply_body B settings selectedFolder files k
       (apply_prefix B settings selectedFolder files k st)"

fun resolve_prefix :: "'w backend \<Rightarrow> nat \<Rightarrow> 'w scan_state \<Rightarrow> 'w scan_state" where
  "resolve_prefix B 0 st = st"
| "resolve_prefix B (Suc k) st = resolve_body B k (resolve_prefix B k st)"

section \<open>The last path segment, as the specification words it\<close>

text \<open>The segment of a path after its last \<^verbatim>\<open>/\<close>; the whole path when it has none.\<close>

definition after_last_slash :: "string \<Rightarrow> string" where
  "after_last_slash p = rev (takeWhile (\<lambda>c. c \<noteq> CHR ''/'') (rev p))"

section \<open>A small inventory and backend, for concrete runs\<close>

definition no_tags :: metadata where
  "no_tags = \<lparr> title = None, artist = None, album = None, genre = None, year = None, bpm = None \<rparr>"

definition house :: metadata_result where
  "house = \<lparr> suggested_genre = Some ''House'', suggested_artist = None,
             confidence = High, source = ''X'' \<rparr>"

definition track_a :: audio_file where
  "track_a = \<lparr> path = ''/m/a.mp3'', filename = ''a.mp3'', extension = ''mp3'',
               current_metadata = Some (no_tags\<lparr>title := Some ''One'', artist := Some ''Ann''\<rparr>),
               suggested_metadata = Some [house], selected_genre = None \<rparr>"

definition track_b :: audio_file where
  "track_b = \<lparr> path = ''/m/b.mp3'', filename = ''b.mp3'', extension = ''mp3'',
               current_metadata = Some (no_tags\<lparr>title := Some ''Two'', year := Some 0\<rparr>),
               suggested_metadata = Some [house], selected_genre = None \<rparr>"

definition track_c :: audio_file where
  "track_c = \<lparr> path = ''/m/c.mp3'', filename = ''c.mp3'', extension = ''mp3'',
               current_metadata = Some (no_tags\<lparr>artist := Some ''Cy''\<rparr>),
               suggested_metadata = None, selected_genre = None \<rparr>"



definition track_e :: audio_file where
  "track_e = \<lparr> path = ''/m/e.mp3'', filename = ''e.mp3'', extension = ''mp3'',
               current_metadata = Some (no_tags\<lparr>title := Some ''Beat'', artist := Some ''Bo''\<rparr>),
               suggested_metadata = None, selected_genre = None \<rparr>"

text \<open>
  A backend whose state counts the calls made.  Writing tags fails on \<^verbatim>\<open>/m/b.mp3\<close>,
  the lookup fails for the artist \<^verbatim>\<open>Bo\<close>, renaming moves a file to \<^verbatim>\<open>/m/new/\<close> plus its
  title, and organizing always fails.
\<close>

definition test_backend :: "nat backend" where
  "test_backend =
     \<lparr> fetch_metadata = (\<lambda>a t w.
         (if a = ''Bo'' then Inl (OtherValue ''offline'') else Inr [house], Suc w)),
       update_metadata = (\<lambda>p md b w.
         (if p = ''/m/b.mp3'' then Inl (ErrorObject ''read-only'') else Inr (), Suc w)),
       rename_file = (\<lambda>p md w.
         (Inr (''/m/new/'' @ (case title md of None \<Rightarrow> [] | Some t \<Rightarrow> t)), Suc w)),
       organize = (\<lambda>p md base w. (Inl (OtherValue ''denied''), Suc w)) \<rparr>"

text \<open>A backend on which every write succeeds and every other command fails.\<close>

definition rejecting_backend :: "nat backend" where
  "rejecting_backend =
     \<lparr> fetch_metadata = (\<lambda>a t w. (Inl (OtherValue ''offline''), Suc w)),
       update_metadata = (\<lambda>p md b w. (Inr (), Suc w)),
       rename_file = (\<lambda>p md w. (Inl (OtherValue ''exists''), Suc w)),
       organize = (\<lambda>p md base w. (Inl (OtherValue ''denied''), Suc w)) \<rparr>"

definition test_settings :: app_settings where
  "test_settings =
     \<lparr> spotify_client_id = [], spotify_client_secret = [], folder_pattern = ''{genre}'',
       backup_before_changes = True, organize_files = True, rename_files = True \<rparr>"

section \<open>Shape of the loops\<close>

text \<open>
  Iteration \<open>i\<close> writes to entry \<open>i\<close> of the array only and never resizes it.  So a loop
  started at index 0 ends in the state \<open>apply_prefix \<dots> (length files)\<close>, it reaches index
  \<open>k\<close> in the state \<open>apply_prefix \<dots> k\<close>, and what iteration \<open>i\<close> leaves in entry \<open>i\<close>
  is what the pass returns there.  The same holds for the resolution loop.
\<close>

lemma length_resolve_body [simp]:
  "length (scannedFiles (resolve_body B i st)) = length (scannedFiles st)"
  by (simp add: resolve_body_def setProgress_def invoke_fetch_metadata_def Let_def
      split: prod.splits sum.splits)

lemmas invoke_defs =
  invoke_update_metadata_def invoke_rename_file_def invoke_organize_files_def
  invoke_fetch_metadata_def

lemma length_rename_step [simp]:
  "length (updatedFiles (snd (rename_step B settings i md p st))) = length (updatedFiles st)"
  by (simp add: rename_step_def invoke_defs case_prod_beta split: sum.splits)

lemma length_organize_step [simp]:
  "length (updatedFiles (organize_step B settings sf i md p st)) = length (updatedFiles st)"
  by (simp add: organize_step_def invoke_defs case_prod_beta split: sum.splits)

lemma length_write_step [simp]:
  "length (updatedFiles (write_step B settings sf i file md st)) = length (updatedFiles st)"
  by (simp add: write_step_def invoke_defs case_prod_beta Let_def split: sum.splits)

lemma length_apply_body [simp]:
  "length (updatedFiles (apply_body B settings sf files i st)) = length (updatedFiles st)"
  by (simp add: apply_body_def setProgress_def Let_def split: option.splits list.splits)

lemma length_apply_prefix [simp]:
  "length (updatedFiles (apply_prefix B settings sf files k st)) = length (updatedFiles st)"
  by (induction k) simp_all

lemma other_rename_step:
  "j \<noteq> i \<Longrightarrow> updatedFiles (snd (rename_step B settings i md p st)) ! j = updatedFiles st ! j"
  by (simp add: rename_step_def invoke_defs case_prod_beta split: sum.splits)

lemma other_organize_step:
  "j \<noteq> i \<Longrightarrow> updatedFiles (organize_step B settings sf i md p st) ! j = updatedFiles st ! j"
  by (simp add: organize_step_def invoke_defs case_prod_beta split: sum.splits)

lemma other_write_step:
  "j \<noteq> i \<Longrightarrow> updatedFiles (write_step B settings sf i file md st) ! j = updatedFiles st ! j"
  by (simp add: write_step_def invoke_defs case_prod_beta Let_def other_rename_step
      other_organize_step split: sum.splits)

lemma other_apply_body:
  "j \<noteq> i \<Longrightarrow> updatedFiles (apply_body B settings sf files i st) ! j = updatedFiles st ! j"
  by (simp add: apply_body_def setProgress_def Let_def other_write_step split: option.splits list.splits)

lemma later_apply_prefix:
  "k \<le> j \<Longrightarrow> updatedFiles (apply_prefix B settings sf files k st) ! j = updatedFiles st ! j"
  by (induction k) (simp_all add: other_apply_body)

lemma apply_loop_prefix:
  "apply_loop B settings sf files k (apply_prefix B settings sf files k st)
   = apply_prefix B settings sf files (max k (length files)) st"
proof (induction "length files - k" arbitrary: k)
  case 0
  then show ?case by (simp add: apply_loop.simps max_def)
next
  case (Suc d)
  then have lt: "k < length files" and d: "d = length files - Suc k" by simp_all
  from Suc.hyps(1)[OF d] lt show ?case
    by (subst apply_loop.simps) (simp add: max_def)
qed

lemma apply_loop_final:
  "apply_loop B settings sf files 0 st = apply_prefix B settings sf files (length files) st"
  using apply_loop_prefix[of B settings sf files 0 st] by simp

lemma earlier_apply_loop:
  "j < k \<Longrightarrow> updatedFiles (apply_loop B settings sf files k st) ! j = updatedFiles st ! j"
proof (induction B settings sf files k st rule: apply_loop.induct)
  case (1 B settings sf files i st)
  show ?case
  proof (cases "i < length files")
    case True
    with 1 show ?thesis
      by (subst apply_loop.simps) (simp add: other_apply_body)
  next
    case False
    then show ?thesis by (subst apply_loop.simps) simp
  qed
qed

lemma apply_loop_from:
  assumes "i < length files"
  shows "apply_loop B settings sf files 0 st
         = apply_loop B settings sf files (Suc i)
             (apply_body B settings sf files i (apply_prefix B settings sf files i st))"
proof -
  have "apply_loop B settings sf files (Suc i) (apply_prefix B settings sf files (Suc i) st)
        = apply_prefix B settings sf files (length files) st"
    using assms apply_loop_prefix[of B settings sf files "Suc i" st] by (simp add: max_def)
  then show ?thesis by (simp add: apply_loop_final)
qed

lemma file_after_pass:
  assumes "i < length files"
  shows "updatedFiles (apply_loop B settings sf files 0 st) ! i
         = updatedFiles (apply_body B settings sf files i (apply_prefix B settings sf files i st)) ! i"
  by (simp add: apply_loop_from[OF assms] earlier_apply_loop)

lemma apply_body_processed:
  assumes "suggested_metadata (files ! i) = Some (accepted # others)"
    and "truthy_str (suggested_genre accepted) \<or> truthy_str (suggested_artist accepted)"
  shows "apply_body B settings sf files i st
         = setProgress (js_mul (js_div (of_nat (i + 1)) (of_nat (length files))) 100)
             (write_step B settings sf i (files ! i)
                (updatedMetadata (files ! i) (suggested_genre accepted) (suggested_artist accepted)) st)"
  using assms by (auto simp: apply_body_def Let_def)

lemma apply_body_skipped:
  assumes "suggested_metadata (files ! i) = None \<or> suggested_metadata (files ! i) = Some []
           \<or> (\<exists>accepted others. suggested_metadata (files ! i) = Some (accepted # others)
                \<and> \<not> truthy_str (suggested_genre accepted) \<and> \<not> truthy_str (suggested_artist accepted))"
  shows "apply_body B settings sf files i st
         = setProgress (js_mul (js_div (of_nat (i + 1)) (of_nat (length files))) 100) st"
  using assms by (auto simp: apply_body_def Let_def)

lemma write_step_failed:
  assumes "fst (update_metadata B (path file) md (backup_before_changes settings) (world st)) = Inl e"
  shows "write_step B settings sf i file md st
         = st\<lparr>world := snd (update_metadata B (path file) md (backup_before_changes settings) (world st)),
              calls := calls st @ [UpdateMetadata (path file) md (backup_before_changes settings)],
              errors := errors st @ [filename file @ '': '' @ errorMsg_of e],
              errorCount := errorCount st + 1\<rparr>"
  using assms by (simp add: write_step_def invoke_defs case_prod_beta)

lemma rename_step_keeps:
  "successCount (snd (rename_step B settings i md p st)) = successCount st"
  "errorCount (snd (rename_step B settings i md p st)) = errorCount st"
  "errors (snd (rename_step B settings i md p st)) = errors st"
  "organizedCount (snd (rename_step B settings i md p st)) = organizedCount st"
  by (simp_all add: rename_step_def invoke_defs case_prod_beta split: sum.splits)

lemma rename_step_current_metadata:
  "i < length (updatedFiles st) \<Longrightarrow>
   current_metadata (updatedFiles (snd (rename_step B settings i md p st)) ! i)
   = current_metadata (updatedFiles st ! i)"
  by (simp add: rename_step_def invoke_defs case_prod_beta split: sum.splits)

lemma organize_step_keeps:
  "successCount (organize_step B settings sf i md p st) = successCount st"
  "errorCount (organize_step B settings sf i md p st) = errorCount st"
  "errors (organize_step B settings sf i md p st) = errors st"
  by (simp_all add: organize_step_def invoke_defs case_prod_beta split: sum.splits)

lemma organize_step_same_file:
  "i < length (updatedFiles st) \<Longrightarrow>
   current_metadata (updatedFiles (organize_step B settings sf i md p st) ! i)
   = current_metadata (updatedFiles st ! i)"
  "i < length (updatedFiles st) \<Longrightarrow>
   filename (updatedFiles (organize_step B settings sf i md p st) ! i)
   = filename (updatedFiles st ! i)"
  by (simp_all add: organize_step_def invoke_defs case_prod_beta split: sum.splits)

lemma write_step_written:
  assumes "fst (update_metadata B (path file) md (backup_before_changes settings) (world st)) = Inr u"
  shows "successCount (write_step B settings sf i file md st) = successCount st + 1"
    and "errorCount (write_step B settings sf i file md st) = errorCount st"
    and "errors (write_step B settings sf i file md st) = errors st"
    and "i < length (updatedFiles st) \<Longrightarrow>
         current_metadata (updatedFiles (write_step B settings sf i file md st) ! i) = Some md"
  using assms
  by (simp_all add: write_step_def invoke_update_metadata_def case_prod_beta Let_def
      rename_step_keeps organize_step_keeps rename_step_current_metadata
      organize_step_same_file)

lemma setProgress_fields [simp]:
  "world (setProgress v st) = world st"
  "calls (setProgress v st) = calls st"
  "progress (setProgress v st) = v"
  "progress_log (setProgress v st) = progress_log st @ [v]"
  "successCount (setProgress v st) = successCount st"
  "errorCount (setProgress v st) = errorCount st"
  "organizedCount (setProgress v st) = organizedCount st"
  "errors (setProgress v st) = errors st"
  "updatedFiles (setProgress v st) = updatedFiles st"
  "scannedFiles (setProgress v sc) = scannedFiles sc"
  by (simp_all add: setProgress_def)

lemma apply_init_fields [simp]:
  "world (apply_init files w) = w"
  "calls (apply_init files w) = []"
  "progress (apply_init files w) = 0"
  "progress_log (apply_init files w) = [0]"
  "successCount (apply_init files w) = 0"
  "errorCount (apply_init files w) = 0"
  "organizedCount (apply_init files w) = 0"
  "errors (apply_init files w) = []"
  "updatedFiles (apply_init files w) = files"
  by (simp_all add: apply_init_def)

section \<open>The apply pass: what a write does to the inventory\<close>

text \<open>
  C1.  Take a file of the inventory that the apply pass does not skip, and the state in
  which its iteration starts.  If \<^verbatim>\<open>update_metadata\<close> resolves there, the file's
  \<open>current_metadata\<close> when the pass has ended is the effective metadata built for it;
  if \<^verbatim>\<open>update_metadata\<close> rejects, it is what it was before the pass.
\<close>

theorem current_metadata_after_apply:
  fixes B :: "'w backend" and settings :: app_settings and sf :: string
    and files :: "audio_file list" and w :: 'w and i :: nat
  assumes "i < length files"
    and "suggested_metadata (files ! i) = Some (accepted # others)"
    and "truthy_str (suggested_genre accepted) \<or> truthy_str (suggested_artist accepted)"
  defines "md \<equiv> updatedMetadata (files ! i) (suggested_genre accepted) (suggested_artist accepted)"
    and "before \<equiv> apply_prefix B settings sf files i (apply_init files w)"
  defines "written \<equiv> fst (update_metadata B (path (files ! i)) md
                            (backup_before_changes settings) (world before))"
    and "final \<equiv> fst (handleApplyChanges B settings sf files w)"
  shows "case written of
           Inr u \<Rightarrow> current_metadata (updatedFiles final ! i) = Some md
         | Inl e \<Rightarrow> current_metadata (updatedFiles final ! i) = current_metadata (files ! i)"
proof -
  have at_i: "updatedFiles before ! i = files ! i" and len: "i < length (updatedFiles before)"
    using assms(1) by (simp_all add: before_def later_apply_prefix)
  have fin: "updatedFiles final ! i
             = updatedFiles (write_step B settings sf i (files ! i) md before) ! i"
    unfolding final_def handleApplyChanges_def Let_def fst_conv before_def md_def
    by (simp add: file_after_pass[OF assms(1)] apply_body_processed[OF assms(2,3)])
  show ?thesis
  proof (cases written)
    case (Inl e)
    then show ?thesis
      using fin at_i write_step_failed[of B "files ! i" md settings before e sf i]
      by (simp add: written_def)
  next
    case (Inr u)
    then show ?thesis
      using fin len write_step_written(4)[of B "files ! i" md settings before u i sf]
      by (simp add: written_def)
  qed
qed

theorem current_metadata_after_apply_witness:
  "current_metadata
     (updatedFiles (fst (handleApplyChanges test_backend test_settings ''/m'' [track_a, track_b] 0)) ! 0)
   = Some (updatedMetadata track_a (Some ''House'') None)
   \<and> current_metadata
     (updatedFiles (fst (handleApplyChanges test_backend test_settings ''/m'' [track_a, track_b] 0)) ! 1)
   = current_metadata track_b"
  using current_metadata_after_apply [of 0 "[track_a, track_b]" house "[]" test_backend
          test_settings "''/m''" 0]
        current_metadata_after_apply [of 1 "[track_a, track_b]" house "[]" test_backend
          test_settings "''/m''" 0]
  by (simp add: track_a_def track_b_def house_def test_backend_def truthy_str_def)

lemma handleApplyChanges_from:
  assumes "i < length files"
  shows "fst (handleApplyChanges B settings sf files w)
         = apply_loop B settings sf files (Suc i)
             (apply_prefix B settings sf files (Suc i) (apply_init files w))"
  using apply_loop_from[OF assms, of B settings sf "apply_init files w"]
  by (simp add: handleApplyChanges_def Let_def)


section \<open>The apply pass: a failed write\<close>




section \<open>The apply pass: a successful write\<close>

lemma rename_step_trace:
  "calls (snd (rename_step B settings i md p st))
   = calls st @ (if rename_files settings then [RenameFile p md] else [])"
  "fst (rename_step B settings i md p st)
   = (if rename_files settings
      then (case fst (rename_file B p md (world st)) of Inr newPath \<Rightarrow> newPath | Inl e \<Rightarrow> p)
      else p)"
  by (simp_all add: rename_step_def invoke_defs case_prod_beta split: sum.splits)

lemma organize_step_trace:
  "calls (organize_step B settings sf i md p st)
   = calls st @ (if organize_files settings \<and> sf \<noteq> [] then [OrganizeFiles p md sf] else [])"
  by (simp add: organize_step_def invoke_defs case_prod_beta split: sum.splits)

lemma write_step_trace:
  assumes "fst (update_metadata B (path file) md (backup_before_changes settings) (world st)) = Inr u"
  shows "calls (write_step B settings sf i file md st)
         = calls st @ [UpdateMetadata (path file) md (backup_before_changes settings)]
           @ (if rename_files settings then [RenameFile (path file) md] else [])
           @ (if organize_files settings \<and> sf \<noteq> []
              then [OrganizeFiles
                      (if rename_files settings
                       then (case fst (rename_file B (path file) md
                                         (snd (update_metadata B (path file) md
                                                 (backup_before_changes settings) (world st)))) of
                               Inr newPath \<Rightarrow> newPath
                             | Inl e \<Rightarrow> path file)
                       else path file)
                      md sf]
              else [])"
  using assms
  by (simp add: write_step_def invoke_update_metadata_def case_prod_beta Let_def
      rename_step_trace organize_step_trace)

text \<open>
  C5.  When \<^verbatim>\<open>update_metadata\<close> resolves for a file the pass does not skip, the iteration
  of that file adds one to the success count whatever \<^verbatim>\<open>rename_file\<close> and
  \<^verbatim>\<open>organize_files\<close> then do: the failure count and the error list stay as they were and
  the file keeps the written metadata, also when the pass has ended.  Every enabled step
  is attempted: after the write, \<^verbatim>\<open>rename_file\<close> is called when renaming is on, and
  \<^verbatim>\<open>organize_files\<close> is called when organizing is on and a folder is selected, also after
  a rejected rename (then with the path the file had).  The pass goes on with the next
  index.
\<close>

theorem write_success_counts:
  fixes B :: "'w backend" and settings :: app_settings and sf :: string
    and files :: "audio_file list" and w :: 'w and i :: nat and accepted :: metadata_result
  defines "md \<equiv> updatedMetadata (files ! i) (suggested_genre accepted) (suggested_artist accepted)"
    and "before \<equiv> apply_prefix B settings sf files i (apply_init files w)"
    and "after \<equiv> apply_prefix B settings sf files (Suc i) (apply_init files w)"
  defines "renamed \<equiv> fst (rename_file B (path (files ! i)) md
                            (snd (update_metadata B (path (files ! i)) md
                                    (backup_before_changes settings) (world before))))"
  assumes "i < length files"
    and "suggested_metadata (files ! i) = Some (accepted # others)"
    and "truthy_str (suggested_genre accepted) \<or> truthy_str (suggested_artist accepted)"
    and "fst (update_metadata B (path (files ! i)) md (backup_before_changes settings)
               (world before)) = Inr u"
  shows "successCount after = successCount before + 1
       \<and> errorCount after = errorCount before
       \<and> errors after = errors before
       \<and> current_metadata (updatedFiles after ! i) = Some md
       \<and> current_metadata (updatedFiles (fst (handleApplyChanges B settings sf files w)) ! i) = Some md
       \<and> calls after
           = calls before @ [UpdateMetadata (path (files ! i)) md (backup_before_changes settings)]
             @ (if rename_files settings then [RenameFile (path (files ! i)) md] else [])
             @ (if organize_files settings \<and> sf \<noteq> []
                then [OrganizeFiles
                        (if rename_files settings
                         then (case renamed of Inr newPath \<Rightarrow> newPath | Inl e \<Rightarrow> path (files ! i))
                         else path (files ! i))
                        md sf]
                else [])
       \<and> fst (handleApplyChanges B settings sf files w)
           = apply_loop B settings sf files (Suc i) after"
proof -
  have body: "after = setProgress (js_mul (js_div (of_nat (i + 1)) (of_nat (length files))) 100)
                        (write_step B settings sf i (files ! i) md before)"
    unfolding after_def before_def md_def
    by (simp add: apply_body_processed[OF assms(6,7)])
  have len: "i < length (updatedFiles before)"
    using assms(5) by (simp add: before_def)
  note written = write_step_written[OF assms(8), where sf = sf and i = i]
  note trace = write_step_trace[OF assms(8), where sf = sf and i = i]
  have fin: "fst (handleApplyChanges B settings sf files w)
        = apply_loop B settings sf files (Suc i) after"
    unfolding after_def by (rule handleApplyChanges_from[OF assms(5)])
  have "current_metadata (updatedFiles after ! i) = Some md"
    using written(4)[OF len] by (simp add: body)
  moreover have "updatedFiles (fst (handleApplyChanges B settings sf files w)) ! i
                 = updatedFiles after ! i"
    by (simp add: fin earlier_apply_loop)
  moreover have "calls after = calls (write_step B settings sf i (files ! i) md before)"
    by (simp add: body)
  ultimately show ?thesis
    using fin by (simp add: body written(1,2,3) trace renamed_def)
qed

theorem write_success_counts_witness:
  "successCount (apply_prefix rejecting_backend test_settings ''/m'' [track_a, track_b] 1
                   (apply_init [track_a, track_b] 0)) = 1
   \<and> errorCount (apply_prefix rejecting_backend test_settings ''/m'' [track_a, track_b] 1
                   (apply_init [track_a, track_b] 0)) = 0
   \<and> errors (apply_prefix rejecting_backend test_settings ''/m'' [track_a, track_b] 1
                   (apply_init [track_a, track_b] 0)) = []
   \<and> fst (rename_file rejecting_backend ''/m/a.mp3''
             (updatedMetadata track_a (Some ''House'') None) 1) = Inl (OtherValue ''exists'')
   \<and> fst (organize rejecting_backend ''/m/a.mp3''
             (updatedMetadata track_a (Some ''House'') None) ''/m'' 2) = Inl (OtherValue ''denied'')
   \<and> calls (apply_prefix rejecting_backend test_settings ''/m'' [track_a, track_b] 1
                   (apply_init [track_a, track_b] 0))
       = [UpdateMetadata ''/m/a.mp3'' (updatedMetadata track_a (Some ''House'') None) True,
          RenameFile ''/m/a.mp3'' (updatedMetadata track_a (Some ''House'') None),
          OrganizeFiles ''/m/a.mp3'' (updatedMetadata track_a (Some ''House'') None) ''/m'']
   \<and> current_metadata
        (updatedFiles (fst (handleApplyChanges rejecting_backend test_settings ''/m''
                              [track_a, track_b] 0)) ! 0)
       = Some (updatedMetadata track_a (Some ''House'') None)"
proof -
  have h1: "0 < length [track_a, track_b]" by simp
  have h2: "suggested_metadata ([track_a, track_b] ! 0) = Some (house # [])"
    by (simp add: track_a_def)
  have h3: "truthy_str (suggested_genre house) \<or> truthy_str (suggested_artist house)"
    by (simp add: house_def truthy_str_def)
  have h4: "fst (update_metadata rejecting_backend (path ([track_a, track_b] ! 0))
                   (updatedMetadata ([track_a, track_b] ! 0) (suggested_genre house)
                      (suggested_artist house))
                   (backup_before_changes test_settings)
                   (world (apply_prefix rejecting_backend test_settings ''/m'' [track_a, track_b] 0
                             (apply_init [track_a, track_b] 0)))) = Inr ()"
    by (simp add: rejecting_backend_def)
  have s: "rename_files test_settings" "organize_files test_settings"
    "backup_before_changes test_settings"
    by (simp_all add: test_settings_def)
  have b: "rename_file rejecting_backend p md v = (Inl (OtherValue ''exists''), Suc v)"
    "organize rejecting_backend p md base v = (Inl (OtherValue ''denied''), Suc v)" for p md base v
    by (simp_all add: rejecting_backend_def)
  have f: "path track_a = ''/m/a.mp3''" "suggested_genre house = Some ''House''"
    "suggested_artist house = None"
    by (simp_all add: track_a_def house_def)
  show ?thesis
    using write_success_counts [OF h1 h2 h3 h4]
    by (auto simp: s b f)
qed

section \<open>The apply pass: skipped files\<close>

text \<open>
  C6.  A file with no suggestions (none attached, or an empty list), or whose first
  suggestion has neither genre nor artist, is skipped: its iteration changes no counter
  and not the error list, calls no backend command, and leaves the inventory alone.
\<close>

theorem skipped_file_untouched:
  fixes B :: "'w backend" and settings :: app_settings and sf :: string
    and files :: "audio_file list" and w :: 'w and i :: nat
  defines "before \<equiv> apply_prefix B settings sf files i (apply_init files w)"
    and "after \<equiv> apply_prefix B settings sf files (Suc i) (apply_init files w)"
  assumes "i < length files"
    and "suggested_metadata (files ! i) = None \<or> suggested_metadata (files ! i) = Some []
         \<or> (\<exists>accepted others. suggested_metadata (files ! i) = Some (accepted # others)
              \<and> \<not> truthy_str (suggested_genre accepted) \<and> \<not> truthy_str (suggested_artist accepted))"
  shows "successCount after = successCount before
       \<and> errorCount after = errorCount before
       \<and> organizedCount after = organizedCount before
       \<and> errors after = errors before
       \<and> calls after = calls before
       \<and> world after = world before
       \<and> updatedFiles after = updatedFiles before
       \<and> updatedFiles (fst (handleApplyChanges B settings sf files w)) ! i = files ! i"
proof -
  have body: "after = setProgress (js_mul (js_div (of_nat (i + 1)) (of_nat (length files))) 100) before"
    unfolding after_def before_def by (simp add: apply_body_skipped[OF assms(4)])
  have "updatedFiles (fst (handleApplyChanges B settings sf files w)) ! i = updatedFiles after ! i"
    by (simp add: handleApplyChanges_from[OF assms(3)] earlier_apply_loop after_def)
  moreover have "updatedFiles before ! i = files ! i"
    by (simp add: before_def later_apply_prefix)
  ultimately show ?thesis by (simp add: body)
qed

theorem skipped_file_untouched_witness:
  "calls (apply_prefix test_backend test_settings ''/m'' [track_c, track_a] 1
            (apply_init [track_c, track_a] 0)) = []
   \<and> successCount (apply_prefix test_backend test_settings ''/m'' [track_c, track_a] 1
            (apply_init [track_c, track_a] 0)) = 0
   \<and> errorCount (apply_prefix test_backend test_settings ''/m'' [track_c, track_a] 1
            (apply_init [track_c, track_a] 0)) = 0
   \<and> updatedFiles (fst (handleApplyChanges test_backend test_settings ''/m'' [track_c, track_a] 0)) ! 0
       = track_c"
  using skipped_file_untouched [of 0 "[track_c, track_a]" test_backend test_settings "''/m''" 0]
  by (simp add: track_c_def)

section \<open>The apply pass on an empty inventory\<close>

text \<open>
  C9.  On an empty inventory the apply pass ends with all three counters 0, no error, no
  backend call, the progress value still 0 (the only value ever set), and the message
  \<^verbatim>\<open>Completed! 0 files updated successfully\<close>.
\<close>

theorem apply_empty_inventory:
  "handleApplyChanges B settings sf [] w
   = (\<lparr> world = w, calls = [], progress = 0, progress_log = [0],
         successCount = 0, errorCount = 0, organizedCount = 0, errors = [],
         updatedFiles = [] \<rparr>,
      ''Completed! 0 files updated successfully'')"
  by (simp add: handleApplyChanges_def apply_loop.simps apply_init_def summary_def
      show_nat.simps digit_char_def)

section \<open>The apply pass: the filename after a rename\<close>

lemma split_js_not_Nil [simp]: "split_js sep p \<noteq> []"
  by (induction p) (auto split: list.splits)

lemma split_js_no_sep: "sep \<notin> set p \<Longrightarrow> split_js sep p = [p]"
  by (induction p) auto

lemma split_js_sep: "sep \<in> set p \<Longrightarrow> tl (split_js sep p) \<noteq> []"
  by (induction p) (auto split: list.splits)

lemma last_split_js: "last (split_js CHR ''/'' p) = after_last_slash p"
proof (induction p)
  case Nil
  then show ?case by (simp add: after_last_slash_def)
next
  case (Cons c cs)
  show ?case
  proof (cases "c = CHR ''/''")
    case True
    then show ?thesis
      using Cons.IH by (auto simp: after_last_slash_def takeWhile_append)
  next
    case False
    show ?thesis
    proof (cases "CHR ''/'' \<in> set cs")
      case True
      then obtain seg s2 segs where sp: "split_js CHR ''/'' cs = seg # s2 # segs"
        using split_js_sep[OF True] by (cases "split_js CHR ''/'' cs") (auto simp: neq_Nil_conv)
      from True False Cons.IH show ?thesis
        by (auto simp: sp after_last_slash_def takeWhile_append)
    next
      case no: False
      with False show ?thesis
        by (auto simp: split_js_no_sep after_last_slash_def takeWhile_append)
    qed
  qed
qed

lemma after_last_slash_no_slash: "CHR ''/'' \<notin> set p \<Longrightarrow> after_last_slash p = p"
proof -
  assume "CHR ''/'' \<notin> set p"
  then have whole: "takeWhile (\<lambda>c. c \<noteq> CHR ''/'') (rev p) = rev p"
    by (intro takeWhile_eq_all_conv[THEN iffD2]) auto
  show ?thesis unfolding after_last_slash_def whole by simp
qed

lemma popped_segment:
  "the (or_str (pop (split_js CHR ''/'' p)) (Some old))
   = (if after_last_slash p = [] then old else after_last_slash p)"
  by (simp add: pop_def or_str_def truthy_str_def last_split_js)

lemma rename_step_renamed:
  assumes "rename_files settings" and "rename_file B p md (world st) = (Inr newPath, w2)"
    and "i < length (updatedFiles st)"
  shows "filename (updatedFiles (snd (rename_step B settings i md p st)) ! i)
         = the (or_str (pop (split_js CHR ''/'' newPath)) (Some (filename (updatedFiles st ! i))))"
  using assms by (simp add: rename_step_def invoke_defs)

lemma write_step_renamed:
  assumes "update_metadata B (path file) md (backup_before_changes settings) (world st) = (Inr u, w1)"
    and "rename_files settings" and "rename_file B (path file) md w1 = (Inr newPath, w2)"
    and "i < length (updatedFiles st)"
  shows "filename (updatedFiles (write_step B settings sf i file md st) ! i)
         = the (or_str (pop (split_js CHR ''/'' newPath)) (Some (filename (updatedFiles st ! i))))"
  using assms
  by (simp add: write_step_def invoke_update_metadata_def case_prod_beta Let_def
      organize_step_same_file rename_step_renamed)

text \<open>
  C10.  When the write and then the rename of a file succeed, the file's filename after
  the pass is the segment of the returned path after its last \<^verbatim>\<open>/\<close>; when that segment
  is empty (an empty path, or one ending in \<^verbatim>\<open>/\<close>) the filename is the one the file had;
  and for a path with no \<^verbatim>\<open>/\<close> the segment is the whole path.
\<close>

theorem filename_after_rename:
  fixes B :: "'w backend" and settings :: app_settings and sf :: string
    and files :: "audio_file list" and w :: 'w and i :: nat and accepted :: metadata_result
  defines "md \<equiv> updatedMetadata (files ! i) (suggested_genre accepted) (suggested_artist accepted)"
    and "before \<equiv> apply_prefix B settings sf files i (apply_init files w)"
  assumes "i < length files"
    and "suggested_metadata (files ! i) = Some (accepted # others)"
    and "truthy_str (suggested_genre accepted) \<or> truthy_str (suggested_artist accepted)"
    and "update_metadata B (path (files ! i)) md (backup_before_changes settings) (world before)
         = (Inr u, w1)"
    and "rename_files settings"
    and "rename_file B (path (files ! i)) md w1 = (Inr newPath, w2)"
  shows "filename (updatedFiles (fst (handleApplyChanges B settings sf files w)) ! i)
         = (if after_last_slash newPath = [] then filename (files ! i)
            else after_last_slash newPath)
       \<and> (CHR ''/'' \<notin> set newPath \<longrightarrow> after_last_slash newPath = newPath)"
proof -
  have at_i: "updatedFiles before ! i = files ! i" and len: "i < length (updatedFiles before)"
    using assms(3) by (simp_all add: before_def later_apply_prefix)
  have "updatedFiles (fst (handleApplyChanges B settings sf files w)) ! i
        = updatedFiles (write_step B settings sf i (files ! i) md before) ! i"
    unfolding handleApplyChanges_def Let_def fst_conv before_def md_def
    by (simp add: file_after_pass[OF assms(3)] apply_body_processed[OF assms(4,5)])
  then show ?thesis
    using write_step_renamed[OF assms(6,7,8) len, of sf]
    by (simp add: popped_segment at_i after_last_slash_no_slash)
qed

theorem filename_after_rename_witness:
  "filename (updatedFiles (fst (handleApplyChanges test_backend test_settings ''/m'' [track_a] 0)) ! 0)
   = ''One''
   \<and> after_last_slash ''/m/new/One'' = ''One''"
  using filename_after_rename [where i = 0 and files = "[track_a]" and accepted = house
          and others = "[]" and B = test_backend and settings = test_settings and w = 0
          and u = "()" and ?w1.0 = 1 and newPath = "''/m/new/One''" and ?w2.0 = 2
          and sf = "''/m''"]
  by (simp add: track_a_def house_def test_backend_def truthy_str_def test_settings_def
      updatedMetadata_def or_str_def opt_chain_def no_tags_def after_last_slash_def)

section \<open>The apply pass: the effective metadata\<close>







section \<open>The resolution pass\<close>

lemma setProgress_effects [simp]:
  fixes st :: "('w, 'z) effects_scheme"
  shows "world (setProgress v st) = world st"
    and "calls (setProgress v st) = calls st"
    and "progress (setProgress v st) = v"
    and "progress_log (setProgress v st) = progress_log st @ [v]"
  by (simp_all add: setProgress_def)

lemma resolve_init_fields [simp]:
  "world (resolve_init scanned w) = w"
  "calls (resolve_init scanned w) = []"
  "progress (resolve_init scanned w) = 50"
  "progress_log (resolve_init scanned w) = [10, 50]"
  "scannedFiles (resolve_init scanned w) = scanned"
  by (simp_all add: resolve_init_def)

lemma length_resolve_prefix [simp]:
  "length (scannedFiles (resolve_prefix B k st)) = length (scannedFiles st)"
  by (induction k) simp_all

lemma other_resolve_body:
  "j \<noteq> i \<Longrightarrow> scannedFiles (resolve_body B i st) ! j = scannedFiles st ! j"
  by (simp add: resolve_body_def invoke_defs case_prod_beta Let_def split: sum.splits)

lemma later_resolve_prefix:
  "k \<le> j \<Longrightarrow> scannedFiles (resolve_prefix B k st) ! j = scannedFiles st ! j"
  by (induction k) (simp_all add: other_resolve_body)

lemma resolve_loop_prefix:
  "resolve_loop B k (resolve_prefix B k st)
   = resolve_prefix B (max k (length (scannedFiles st))) st"
proof (induction "length (scannedFiles st) - k" arbitrary: k)
  case 0
  then show ?case by (simp add: resolve_loop.simps max_def)
next
  case (Suc d)
  then have lt: "k < length (scannedFiles st)" and d: "d = length (scannedFiles st) - Suc k"
    by simp_all
  from Suc.hyps(1)[OF d] lt show ?case
    by (subst resolve_loop.simps) (simp add: max_def)
qed

lemma resolve_loop_from:
  assumes "i < length (scannedFiles st)"
  shows "resolve_loop B 0 st = resolve_loop B (Suc i) (resolve_prefix B (Suc i) st)"
  using assms resolve_loop_prefix[of B "Suc i" st] resolve_loop_prefix[of B 0 st]
  by (simp add: max_def)

lemma earlier_resolve_loop:
  "j < k \<Longrightarrow> scannedFiles (resolve_loop B k st) ! j = scannedFiles st ! j"
proof (induction B k st rule: resolve_loop.induct)
  case (1 B i st)
  show ?case
  proof (cases "i < length (scannedFiles st)")
    case True
    with 1 show ?thesis
      by (subst resolve_loop.simps) (simp add: other_resolve_body)
  next
    case False
    then show ?thesis by (subst resolve_loop.simps) simp
  qed
qed

lemma file_after_resolution:
  assumes "i < length scanned"
  shows "scannedFiles (fst (resolution_pass B scanned w)) ! i
         = scannedFiles (resolve_body B i (resolve_prefix B i (resolve_init scanned w))) ! i"
  using assms resolve_loop_from[of i "resolve_init scanned w" B]
  by (simp add: resolution_pass_def Let_def earlier_resolve_loop)

lemma resolve_body_eligible:
  assumes "opt_chain artist (current_metadata (scannedFiles st ! i)) = Some a" and "a \<noteq> []"
    and "opt_chain title (current_metadata (scannedFiles st ! i)) = Some t" and "t \<noteq> []"
  shows "resolve_body B i st
         = setProgress (js_add 50 (js_mul (js_div (of_nat (i + 1)) (of_nat (length (scannedFiles st)))) 50))
             (case fst (fetch_metadata B a t (world st)) of
                Inr ranked \<Rightarrow>
                  st\<lparr>world := snd (fetch_metadata B a t (world st)),
                      calls := calls st @ [FetchMetadata a t],
                      scannedFiles := (scannedFiles st)
                        [i := (scannedFiles st ! i)\<lparr>suggested_metadata := Some ranked\<rparr>]\<rparr>
              | Inl e \<Rightarrow>
                  st\<lparr>world := snd (fetch_metadata B a t (world st)),
                      calls := calls st @ [FetchMetadata a t]\<rparr>)"
  using assms
  by (simp add: resolve_body_def invoke_defs case_prod_beta Let_def truthy_str_def
      split: sum.splits)

lemma resolve_body_skipped:
  assumes "\<not> (truthy_str (opt_chain artist (current_metadata (scannedFiles st ! i)))
              \<and> truthy_str (opt_chain title (current_metadata (scannedFiles st ! i))))"
  shows "resolve_body B i st
         = setProgress (js_add 50 (js_mul (js_div (of_nat (i + 1)) (of_nat (length (scannedFiles st)))) 50)) st"
  using assms by (auto simp: resolve_body_def Let_def)

text \<open>
  C3, as amended.  In the resolution pass a file is skipped exactly when its current
  metadata lacks the artist or lacks the title (missing metadata, a null field or an empty
  string): no backend command is called for it and the file stays as the scan produced
  it.  For a file with both, \<^verbatim>\<open>fetch_metadata\<close> is called with them, once, and when it
  resolves the sequence it returns is the file's \<open>suggested_metadata\<close> after the pass.
\<close>

theorem resolution_skips_without_artist_or_title:
  fixes B :: "'w backend" and scanned :: "audio_file list" and w :: 'w and i :: nat
  defines "before \<equiv> resolve_prefix B i (resolve_init scanned w)"
    and "after \<equiv> resolve_prefix B (Suc i) (resolve_init scanned w)"
    and "final \<equiv> fst (resolution_pass B scanned w)"
    and "cur \<equiv> current_metadata (scanned ! i)"
  assumes "i < length scanned"
  shows "(\<forall>a t. opt_chain artist cur = Some a \<and> a \<noteq> [] \<and> opt_chain title cur = Some t \<and> t \<noteq> [] \<longrightarrow>
            calls after = calls before @ [FetchMetadata a t]
            \<and> (\<forall>ranked. fst (fetch_metadata B a t (world before)) = Inr ranked \<longrightarrow>
                 suggested_metadata (scannedFiles final ! i) = Some ranked))
       \<and> (\<not> (truthy_str (opt_chain artist cur) \<and> truthy_str (opt_chain title cur)) \<longrightarrow>
            calls after = calls before \<and> world after = world before
            \<and> scannedFiles final ! i = scanned ! i)"
proof -
  have at_i: "scannedFiles before ! i = scanned ! i" and len: "i < length (scannedFiles before)"
    using assms(5) by (simp_all add: before_def later_resolve_prefix)
  have fin: "scannedFiles final ! i = scannedFiles (resolve_body B i before) ! i"
    unfolding final_def before_def by (rule file_after_resolution[OF assms(5)])
  have aft: "after = resolve_body B i before"
    by (simp add: after_def before_def)
  show ?thesis
  proof (intro conjI allI impI)
    fix a t
    assume el: "opt_chain artist cur = Some a \<and> a \<noteq> [] \<and> opt_chain title cur = Some t \<and> t \<noteq> []"
    then have body: "resolve_body B i before = setProgress
        (js_add 50 (js_mul (js_div (of_nat (i + 1)) (of_nat (length (scannedFiles before)))) 50))
             (case fst (fetch_metadata B a t (world before)) of
                Inr ranked \<Rightarrow>
                  before\<lparr>world := snd (fetch_metadata B a t (world before)),
                      calls := calls before @ [FetchMetadata a t],
                      scannedFiles := (scannedFiles before)
                        [i := (scannedFiles before ! i)\<lparr>suggested_metadata := Some ranked\<rparr>]\<rparr>
              | Inl e \<Rightarrow>
                  before\<lparr>world := snd (fetch_metadata B a t (world before)),
                      calls := calls before @ [FetchMetadata a t]\<rparr>)"
      by (intro resolve_body_eligible) (simp_all add: at_i cur_def)
    show "calls after = calls before @ [FetchMetadata a t]"
      by (simp add: aft body split: sum.splits)
    fix ranked
    assume "fst (fetch_metadata B a t (world before)) = Inr ranked"
    then show "suggested_metadata (scannedFiles final ! i) = Some ranked"
      using len by (simp add: fin body)
  next
    assume sk: "\<not> (truthy_str (opt_chain artist cur) \<and> truthy_str (opt_chain title cur))"
    then have body: "resolve_body B i before = setProgress
        (js_add 50 (js_mul (js_div (of_nat (i + 1)) (of_nat (length (scannedFiles before)))) 50)) before"
      by (intro resolve_body_skipped) (simp add: at_i cur_def)
    show "calls after = calls before" "world after = world before"
      "scannedFiles final ! i = scanned ! i"
      by (simp_all add: aft fin body at_i)
  qed
qed

theorem resolution_skips_without_artist_or_title_witness:
  "calls (resolve_prefix test_backend 1 (resolve_init [track_a, track_c] 0))
   = [FetchMetadata ''Ann'' ''One'']
   \<and> suggested_metadata (scannedFiles (fst (resolution_pass test_backend [track_a, track_c] 0)) ! 0)
     = Some [house]
   \<and> calls (resolve_prefix test_backend 2 (resolve_init [track_a, track_c] 0))
     = calls (resolve_prefix test_backend 1 (resolve_init [track_a, track_c] 0))
   \<and> scannedFiles (fst (resolution_pass test_backend [track_a, track_c] 0)) ! 1 = track_c"
  using resolution_skips_without_artist_or_title [of 0 "[track_a, track_c]" test_backend 0]
        resolution_skips_without_artist_or_title [of 1 "[track_a, track_c]" test_backend 0]
  by (simp add: track_a_def track_c_def test_backend_def truthy_str_def opt_chain_def
      no_tags_def numeral_2_eq_2)

text \<open>
  A file with an artist and no title does not lack both, and is skipped all the same.
\<close>

theorem resolution_artist_only_counterexample:
  "opt_chain artist (current_metadata track_c) = Some ''Cy''
   \<and> calls (fst (resolution_pass test_backend [track_c] 0)) = []
   \<and> suggested_metadata (scannedFiles (fst (resolution_pass test_backend [track_c] 0)) ! 0) = None"
  by (simp add: resolution_pass_def resolve_loop.simps resolve_init_def resolve_body_def Let_def
      setProgress_def track_c_def truthy_str_def opt_chain_def no_tags_def)

lemma resolve_body_progress_log:
  "progress_log (resolve_body B i st)
   = progress_log st
     @ [js_add 50 (js_mul (js_div (of_nat (i + 1)) (of_nat (length (scannedFiles st)))) 50)]"
  by (simp add: resolve_body_def invoke_defs case_prod_beta Let_def split: sum.splits)

lemma resolve_prefix_progress_log:
  "progress_log (resolve_prefix B k st)
   = progress_log st
     @ map (\<lambda>i. js_add 50 (js_mul (js_div (of_nat (i + 1)) (of_nat (length (scannedFiles st)))) 50))
         [0..<k]"
  by (induction k) (simp_all add: resolve_body_progress_log)

lemma resolve_loop_final:
  "resolve_loop B 0 st = resolve_prefix B (length (scannedFiles st)) st"
  using resolve_loop_prefix[of B 0 st] by simp

lemma resolution_pass_progress_log:
  "progress_log (fst (resolution_pass B scanned w))
   = [10, 50]
     @ map (\<lambda>j. js_add 50 (js_mul (js_div (of_nat (j + 1)) (of_nat (length scanned))) 50))
         [0..<length scanned]
     @ [100]"
  by (simp add: resolution_pass_def Let_def resolve_loop_final resolve_prefix_progress_log)

lemma resolution_pass_from:
  assumes "i < length scanned"
  shows "fst (resolution_pass B scanned w)
         = setProgress 100
             (resolve_loop B (Suc i) (resolve_prefix B (Suc i) (resolve_init scanned w)))"
  using assms resolve_loop_from[of i "resolve_init scanned w" B]
  by (simp add: resolution_pass_def Let_def)

text \<open>
  C8.  When \<^verbatim>\<open>fetch_metadata\<close> rejects for a file, the file stays as the scan produced it
  (its \<open>suggested_metadata\<close> unset if it was), and the handler goes on: its result is the
  loop resumed at the next index from the state so reached, and its progress log has the
  per-file value of that index and of every later one.
\<close>

theorem resolution_failure_is_isolated:
  fixes B :: "'w backend" and scanned :: "audio_file list" and w :: 'w and i :: nat
  defines "before \<equiv> resolve_prefix B i (resolve_init scanned w)"
    and "after \<equiv> resolve_prefix B (Suc i) (resolve_init scanned w)"
    and "final \<equiv> fst (resolution_pass B scanned w)"
    and "cur \<equiv> current_metadata (scanned ! i)"
  assumes "i < length scanned"
    and "opt_chain artist cur = Some a" and "a \<noteq> []"
    and "opt_chain title cur = Some t" and "t \<noteq> []"
    and "fst (fetch_metadata B a t (world before)) = Inl e"
  shows "scannedFiles after = scannedFiles before
       \<and> scannedFiles final ! i = scanned ! i
       \<and> (suggested_metadata (scanned ! i) = None \<longrightarrow>
            suggested_metadata (scannedFiles final ! i) = None)
       \<and> progress_log after = progress_log before
           @ [js_add 50 (js_mul (js_div (of_nat (i + 1)) (of_nat (length scanned))) 50)]
       \<and> resolve_loop B 0 (resolve_init scanned w) = resolve_loop B (Suc i) after
       \<and> final = setProgress 100 (resolve_loop B (Suc i) after)
       \<and> (\<forall>j. i \<le> j \<and> j < length scanned \<longrightarrow>
            progress_log final ! (j + 2)
            = js_add 50 (js_mul (js_div (of_nat (j + 1)) (of_nat (length scanned))) 50))"
proof -
  have at_i: "scannedFiles before ! i = scanned ! i" and len: "i < length (scannedFiles before)"
    using assms(5) by (simp_all add: before_def later_resolve_prefix)
  have fin: "scannedFiles final ! i = scannedFiles (resolve_body B i before) ! i"
    unfolding final_def before_def by (rule file_after_resolution[OF assms(5)])
  have aft: "after = resolve_body B i before"
    by (simp add: after_def before_def)
  have body: "resolve_body B i before = setProgress
        (js_add 50 (js_mul (js_div (of_nat (i + 1)) (of_nat (length (scannedFiles before)))) 50))
          (before\<lparr>world := snd (fetch_metadata B a t (world before)),
                      calls := calls before @ [FetchMetadata a t]\<rparr>)"
    using assms(6-10) resolve_body_eligible[of before i a t B]
    by (simp add: at_i cur_def)
  have n: "length (scannedFiles before) = length scanned"
    by (simp add: before_def)
  have loop: "resolve_loop B 0 (resolve_init scanned w) = resolve_loop B (Suc i) after"
    unfolding after_def using assms(5) by (intro resolve_loop_from) simp
  have pass: "final = setProgress 100 (resolve_loop B (Suc i) after)"
    unfolding final_def after_def by (rule resolution_pass_from[OF assms(5)])
  have logged: "progress_log final ! (j + 2)
            = js_add 50 (js_mul (js_div (of_nat (j + 1)) (of_nat (length scanned))) 50)"
    if "j < length scanned" for j
    using that unfolding final_def resolution_pass_progress_log
    by (simp add: nth_append)
  have first: "scannedFiles after = scannedFiles before
       \<and> scannedFiles final ! i = scanned ! i
       \<and> (suggested_metadata (scanned ! i) = None \<longrightarrow>
            suggested_metadata (scannedFiles final ! i) = None)
       \<and> progress_log after = progress_log before
           @ [js_add 50 (js_mul (js_div (of_nat (i + 1)) (of_nat (length scanned))) 50)]"
    by (simp add: aft fin body at_i n)
  show ?thesis
    using first loop pass logged by blast
qed

theorem resolution_failure_is_isolated_witness:
  "scannedFiles (fst (resolution_pass test_backend [track_e, track_a] 0)) ! 0 = track_e
   \<and> suggested_metadata (scannedFiles (fst (resolution_pass test_backend [track_e, track_a] 0)) ! 0)
     = None
   \<and> fst (resolution_pass test_backend [track_e, track_a] 0)
     = setProgress 100
         (resolve_loop test_backend 1
            (resolve_prefix test_backend 1 (resolve_init [track_e, track_a] 0)))
   \<and> progress_log (fst (resolution_pass test_backend [track_e, track_a] 0)) ! 2
     = js_add 50 (js_mul (js_div 1 2) 50)
   \<and> progress_log (fst (resolution_pass test_backend [track_e, track_a] 0)) ! 3
     = js_add 50 (js_mul (js_div 2 2) 50)
   \<and> calls (fst (resolution_pass test_backend [track_e, track_a] 0))
     = [FetchMetadata ''Bo'' ''Beat'', FetchMetadata ''Ann'' ''One'']
   \<and> suggested_metadata (scannedFiles (fst (resolution_pass test_backend [track_e, track_a] 0)) ! 1)
     = Some [house]"
proof -
  have h1: "0 < length [track_e, track_a]" by simp
  have h2: "opt_chain artist (current_metadata ([track_e, track_a] ! 0)) = Some ''Bo''"
    and h3: "opt_chain title (current_metadata ([track_e, track_a] ! 0)) = Some ''Beat''"
    by (simp_all add: track_e_def opt_chain_def no_tags_def)
  have h4: "fst (fetch_metadata test_backend ''Bo'' ''Beat''
                   (world (resolve_prefix test_backend 0 (resolve_init [track_e, track_a] 0))))
            = Inl (OtherValue ''offline'')"
    by (simp add: test_backend_def)
  have run: "calls (fst (resolution_pass test_backend [track_e, track_a] 0))
               = [FetchMetadata ''Bo'' ''Beat'', FetchMetadata ''Ann'' ''One'']
             \<and> suggested_metadata
                 (scannedFiles (fst (resolution_pass test_backend [track_e, track_a] 0)) ! 1)
               = Some [house]"
    by (simp add: resolution_pass_def resolve_loop.simps resolve_init_def resolve_body_def Let_def
        setProgress_def invoke_defs track_e_def track_a_def test_backend_def truthy_str_def
        opt_chain_def no_tags_def)
  note T = resolution_failure_is_isolated [OF h1 h2 _ h3 _ h4]
  note T2 = T[THEN conjunct2]
  note T3 = T2[THEN conjunct2]
  note T6 = T3[THEN conjunct2, THEN conjunct2, THEN conjunct2]
  have t: "scannedFiles (fst (resolution_pass test_backend [track_e, track_a] 0)) ! 0 = track_e"
    "suggested_metadata track_e = None \<longrightarrow>
       suggested_metadata (scannedFiles (fst (resolution_pass test_backend [track_e, track_a] 0)) ! 0)
       = None"
    "fst (resolution_pass test_backend [track_e, track_a] 0)
     = setProgress 100
         (resolve_loop test_backend (Suc 0)
            (resolve_prefix test_backend (Suc 0) (resolve_init [track_e, track_a] 0)))"
    "\<forall>j. 0 \<le> j \<and> j < length [track_e, track_a] \<longrightarrow>
       progress_log (fst (resolution_pass test_backend [track_e, track_a] 0)) ! (j + 2)
       = js_add 50 (js_mul (js_div (of_nat (j + 1)) (of_nat (length [track_e, track_a]))) 50)"
    using T2[THEN conjunct1] T3[THEN conjunct1] T6[THEN conjunct1] T6[THEN conjunct2]
    by simp_all
  have "suggested_metadata track_e = None" by (simp add: track_e_def)
  with t(2) have u: "suggested_metadata
      (scannedFiles (fst (resolution_pass test_backend [track_e, track_a] 0)) ! 0) = None"
    by blast
  from t(4)[rule_format, of 0] t(4)[rule_format, of 1]
  have p: "progress_log (fst (resolution_pass test_backend [track_e, track_a] 0)) ! 2
             = js_add 50 (js_mul (js_div 1 2) 50)"
    "progress_log (fst (resolution_pass test_backend [track_e, track_a] 0)) ! 3
             = js_add 50 (js_mul (js_div 2 2) 50)"
    by (simp_all add: numeral_3_eq_3 numeral_2_eq_2)
  show ?thesis
    using t(1) u t(3) p run by (simp only: One_nat_def)
qed

section \<open>Rounding to the nearest binary64 value\<close>

lemma round_ties_even_of_int [simp]: "round_ties_even (of_int k) = k"
  by (simp add: round_ties_even_def)

lemma round_ties_even_range:
  "\<lfloor>m\<rfloor> \<le> round_ties_even m" "round_ties_even m \<le> \<lfloor>m\<rfloor> + 1"
  by (simp_all add: round_ties_even_def Let_def)

lemma round_ties_even_mono:
  assumes "a \<le> b"
  shows "round_ties_even a \<le> round_ties_even b"
proof (cases "\<lfloor>a\<rfloor> = \<lfloor>b\<rfloor>")
  case True
  then have "a - of_int \<lfloor>a\<rfloor> \<le> b - of_int \<lfloor>b\<rfloor>"
    using assms by simp
  then show ?thesis
    using True by (auto simp: round_ties_even_def Let_def)
next
  case False
  then have "\<lfloor>a\<rfloor> + 1 \<le> \<lfloor>b\<rfloor>"
    using floor_mono[OF assms] by linarith
  then show ?thesis
    using round_ties_even_range(2)[of a] round_ties_even_range(1)[of b] by linarith
qed

lemma round_ties_even_ge: "of_int k \<le> m \<Longrightarrow> k \<le> round_ties_even m"
  using round_ties_even_mono[of "of_int k" m] by simp

lemma round_ties_even_le: "m \<le> of_int k \<Longrightarrow> round_ties_even m \<le> k"
  using round_ties_even_mono[of m "of_int k"] by simp

lemma binade_bounds:
  assumes "0 < x"
  shows "2 powi (binade x) \<le> x" and "x < 2 powi (binade x + 1)"
proof -
  have "2 powi (binade x) \<le> x \<and> x < 2 powi (binade x + 1)"
  proof (cases "1 \<le> x")
    case True
    define m where "m = nat \<lfloor>x\<rfloor>"
    define k where "k = floorlog 2 m"
    have m: "0 < m" "of_nat m \<le> x" "x < of_nat m + 1"
      using True by (simp_all add: m_def) linarith+
    have b: "2 ^ (k - 1) \<le> m" "m < 2 ^ k"
      using floorlog_bounds[of m 2] m(1) by (simp_all add: k_def)
    have k: "0 < k" using b(2) m(1) by (cases k) simp_all
    have e: "binade x = int (k - 1)"
      using True k by (simp add: binade_def m_def k_def)
    have e1: "binade x + 1 = int k"
      using e k by simp
    have "(2::rat) ^ (k - 1) \<le> of_nat m"
      using b(1) by (metis of_nat_le_iff of_nat_numeral of_nat_power)
    moreover have "of_nat m + 1 \<le> (2::rat) ^ k"
    proof -
      have "m + 1 \<le> 2 ^ k" using b(2) by simp
      then have "(of_nat (m + 1) :: rat) \<le> of_nat (2 ^ k)"
        by (simp only: of_nat_le_iff)
      then show ?thesis by simp
    qed
    ultimately show ?thesis
      using m unfolding e1 unfolding e by (simp only: power_int_of_nat) linarith
  next
    case False
    then have x1: "x < 1" by simp
    define y where "y = 1 / x"
    define m where "m = nat (\<lceil>y\<rceil> - 1)"
    define k where "k = floorlog 2 m"
    have y: "1 < y" using assms x1 by (simp add: y_def)
    then have c: "2 \<le> \<lceil>y\<rceil>" by linarith
    have m: "0 < m" "of_nat m < y" "y \<le> of_nat m + 1"
      using c by (simp_all add: m_def) linarith+
    have b: "2 ^ (k - 1) \<le> m" "m < 2 ^ k"
      using floorlog_bounds[of m 2] m(1) by (simp_all add: k_def)
    have k: "0 < k" using b(2) m(1) by (cases k) simp_all
    have e: "binade x = - int k"
      using False by (simp add: binade_def m_def k_def y_def)
    have e1: "binade x + 1 = - int (k - 1)"
      using e k by simp
    have lo: "(2::rat) ^ (k - 1) < y"
    proof -
      have "(2::rat) ^ (k - 1) \<le> of_nat m"
        using b(1) by (metis of_nat_le_iff of_nat_numeral of_nat_power)
      then show ?thesis using m(2) by linarith
    qed
    have hi: "y \<le> (2::rat) ^ k"
    proof -
      have "m + 1 \<le> 2 ^ k" using b(2) by simp
      then have "(of_nat (m + 1) :: rat) \<le> of_nat (2 ^ k)"
        by (simp only: of_nat_le_iff)
      then show ?thesis using m(3) by simp
    qed
    have xy: "x = 1 / y" using assms by (simp add: y_def)
    have "1 / (2::rat) ^ k \<le> x"
      unfolding xy using hi y by (intro divide_left_mono) simp_all
    moreover have "x < 1 / (2::rat) ^ (k - 1)"
      unfolding xy using lo y by (intro divide_strict_left_mono) simp_all
    ultimately show ?thesis
      unfolding e1 unfolding e
      by (simp only: power_int_minus_divide power_int_of_nat)
  qed
  then show "2 powi (binade x) \<le> x" and "x < 2 powi (binade x + 1)" by simp_all
qed

lemma binade_unique:
  assumes "2 powi e \<le> x" and "x < 2 powi (e + 1)"
  shows "binade x = e"
proof -
  have "(0::rat) < 2 powi e"
    by (rule zero_less_power_int) simp
  then have pos: "0 < x"
    using assms(1) by linarith
  note b = binade_bounds[OF pos]
  have "\<not> binade x < e"
  proof
    assume "binade x < e"
    then have "(2::rat) powi (binade x + 1) \<le> 2 powi e"
      by (intro power_int_increasing) simp_all
    with b(2) assms(1) show False by linarith
  qed
  moreover have "\<not> e < binade x"
  proof
    assume "e < binade x"
    then have "(2::rat) powi (e + 1) \<le> 2 powi (binade x)"
      by (intro power_int_increasing) simp_all
    with b(1) assms(2) show False by linarith
  qed
  ultimately show ?thesis by linarith
qed

lemma binade_mono:
  assumes "0 < x" and "x \<le> y"
  shows "binade x \<le> binade y"
proof (rule ccontr)
  assume "\<not> binade x \<le> binade y"
  then have "(2::rat) powi (binade y + 1) \<le> 2 powi (binade x)"
    by (intro power_int_increasing) simp_all
  moreover have "0 < y" using assms by simp
  ultimately show False
    using binade_bounds(1)[OF assms(1)] binade_bounds(2)[of y] assms(2) by linarith
qed


lemma ulp_times:
  "(2::rat) powi e = 2 ^ 52 * 2 powi (e - 52)"
  "(2::rat) powi (e + 1) = 2 ^ 53 * 2 powi (e - 52)"
proof -
  have "e = 52 + (e - 52)" by simp
  then have "(2::rat) powi e = 2 powi (52 + (e - 52))" by (rule arg_cong)
  also have "\<dots> = 2 powi 52 * 2 powi (e - 52)"
    by (rule power_int_add) simp
  finally show "(2::rat) powi e = 2 ^ 52 * 2 powi (e - 52)" by simp
  have "e + 1 = 53 + (e - 52)" by simp
  then have "(2::rat) powi (e + 1) = 2 powi (53 + (e - 52))" by (rule arg_cong)
  also have "\<dots> = 2 powi 53 * 2 powi (e - 52)"
    by (rule power_int_add) simp
  finally show "(2::rat) powi (e + 1) = 2 ^ 53 * 2 powi (e - 52)" by simp
qed

lemma fl_pos:
  assumes "0 < x"
  shows "fl x = of_int (round_ties_even (x / 2 powi (binade x - 52))) * 2 powi (binade x - 52)"
  using assms by (simp add: fl_def Let_def)

lemma fl_bounds:
  assumes "0 < x"
  shows "2 powi (binade x) \<le> fl x" and "fl x \<le> 2 powi (binade x + 1)"
proof -
  define u :: rat where "u = 2 powi (binade x - 52)"
  have u: "0 < u" unfolding u_def by (rule zero_less_power_int) simp
  note b = binade_bounds[OF assms]
  have lo: "of_int (2 ^ 52) \<le> x / u"
    using b(1) u by (simp add: ulp_times(1)[of "binade x"] u_def[symmetric] pos_le_divide_eq)
  have hi: "x / u \<le> of_int (2 ^ 53)"
    using b(2) u by (simp add: ulp_times(2)[of "binade x"] u_def[symmetric] pos_divide_le_eq)
  have "(2::int) ^ 52 \<le> round_ties_even (x / u)"
    by (rule round_ties_even_ge[OF lo])
  then have "(of_int (2 ^ 52) :: rat) \<le> of_int (round_ties_even (x / u))"
    by (simp only: of_int_le_iff)
  then have "2 ^ 52 * u \<le> of_int (round_ties_even (x / u)) * u"
    using u by simp
  then show "2 powi (binade x) \<le> fl x"
    by (simp add: fl_pos[OF assms] ulp_times(1)[of "binade x"] u_def)
  have "round_ties_even (x / u) \<le> 2 ^ 53"
    by (rule round_ties_even_le[OF hi])
  then have "(of_int (round_ties_even (x / u)) :: rat) \<le> of_int (2 ^ 53)"
    by (simp only: of_int_le_iff)
  then have "of_int (round_ties_even (x / u)) * u \<le> 2 ^ 53 * u"
    using u by simp
  then show "fl x \<le> 2 powi (binade x + 1)"
    by (simp add: fl_pos[OF assms] ulp_times(2)[of "binade x"] u_def)
qed

lemma fl_positive: "0 < x \<Longrightarrow> 0 < fl x"
proof -
  assume "0 < x"
  from fl_bounds(1)[OF this] have "2 powi (binade x) \<le> fl x" .
  moreover have "(0::rat) < 2 powi (binade x)" by (rule zero_less_power_int) simp
  ultimately show ?thesis by linarith
qed

lemma fl_mono_pos:
  assumes "0 < x" and "x \<le> y"
  shows "fl x \<le> fl y"
proof -
  have y: "0 < y" using assms by simp
  have le: "binade x \<le> binade y" by (rule binade_mono[OF assms])
  show ?thesis
  proof (cases "binade x = binade y")
    case True
    define u :: rat where "u = 2 powi (binade y - 52)"
    have u: "0 < u" unfolding u_def by (rule zero_less_power_int) simp
    have "x / u \<le> y / u" using assms(2) u by (simp add: divide_right_mono)
    then have "round_ties_even (x / u) \<le> round_ties_even (y / u)"
      by (rule round_ties_even_mono)
    then have "(of_int (round_ties_even (x / u)) :: rat) \<le> of_int (round_ties_even (y / u))"
      by (simp only: of_int_le_iff)
    then have "of_int (round_ties_even (x / u)) * u \<le> of_int (round_ties_even (y / u)) * u"
      using u by simp
    then show ?thesis
      by (simp add: fl_pos[OF assms(1)] fl_pos[OF y] True u_def)
  next
    case False
    with le have "binade x + 1 \<le> binade y" by simp
    then have "(2::rat) powi (binade x + 1) \<le> 2 powi (binade y)"
      by (intro power_int_increasing) simp_all
    with fl_bounds(2)[OF assms(1)] fl_bounds(1)[OF y] show ?thesis by linarith
  qed
qed

lemma fl_zero [simp]: "fl 0 = 0"
  by (simp add: fl_def)

lemma fl_mono:
  assumes "0 \<le> x" and "x \<le> y"
  shows "fl x \<le> fl y"
proof (cases "x = 0")
  case True
  show ?thesis
  proof (cases "y = 0")
    case True
    with \<open>x = 0\<close> show ?thesis by simp
  next
    case False
    with assms True have "0 < y" by simp
    from fl_positive[OF this] True show ?thesis by simp
  qed
next
  case False
  with assms(1) have "0 < x" by simp
  then show ?thesis using assms(2) by (rule fl_mono_pos)
qed

lemma fl_exact:
  assumes "2 powi e \<le> x" and "x < 2 powi (e + 1)" and "x / 2 powi (e - 52) = of_int k"
  shows "fl x = x"
proof -
  have "(0::rat) < 2 powi e" by (rule zero_less_power_int) simp
  then have pos: "0 < x" using assms(1) by linarith
  have e: "binade x = e" by (rule binade_unique[OF assms(1,2)])
  have u: "(0::rat) < 2 powi (e - 52)" by (rule zero_less_power_int) simp
  have "fl x = of_int k * 2 powi (e - 52)"
    by (simp add: fl_pos[OF pos] e assms(3))
  also have "\<dots> = x"
    using u assms(3)[symmetric] by simp
  finally show ?thesis .
qed

lemma fl_1 [simp]: "fl 1 = 1"
  by (rule fl_exact[where e = 0 and k = "2 ^ 52"]) (simp_all add: power_int_minus_divide)

lemma fl_50 [simp]: "fl 50 = 50"
  by (rule fl_exact[where e = 5 and k = "50 * 2 ^ 47"]) (simp_all add: power_int_minus_divide)

lemma fl_100 [simp]: "fl 100 = 100"
  by (rule fl_exact[where e = 6 and k = "100 * 2 ^ 46"]) (simp_all add: power_int_minus_divide)

lemma round_ties_even_nearest:
  assumes "of_int k - 1 / 2 < m" and "m < of_int k + 1 / 2"
  shows "round_ties_even m = k"
proof -
  have f: "of_int \<lfloor>m\<rfloor> \<le> m" "m < of_int \<lfloor>m\<rfloor> + 1"
    by linarith+
  show ?thesis
  proof (cases "m - of_int \<lfloor>m\<rfloor> < 1 / 2")
    case True
    then have "of_int k - 1 < (of_int \<lfloor>m\<rfloor> :: rat)" "(of_int \<lfloor>m\<rfloor> :: rat) < of_int k + 1"
      using assms f by linarith+
    then have "\<lfloor>m\<rfloor> = k" by linarith
    with True show ?thesis by (simp add: round_ties_even_def Let_def)
  next
    case False
    then have "of_int k - 2 < (of_int \<lfloor>m\<rfloor> :: rat)" "(of_int \<lfloor>m\<rfloor> :: rat) < of_int k"
      using assms f by linarith+
    then have fk: "\<lfloor>m\<rfloor> = k - 1" by linarith
    with assms(1) have "1 / 2 < m - of_int \<lfloor>m\<rfloor>" by simp
    with False fk show ?thesis by (simp add: round_ties_even_def Let_def)
  qed
qed

text \<open>
  Two values as a check of the model: \<^verbatim>\<open>1 / 3\<close> is the binary64 number with significand
  \<^verbatim>\<open>0x15555555555555\<close> and exponent \<open>-54\<close>, and \<^verbatim>\<open>(1 / 3) * 100\<close> is the number
  JavaScript prints as \<^verbatim>\<open>33.33333333333333\<close>.
\<close>

lemma fl_third: "fl (1 / 3) = 6004799503160661 / 18014398509481984"
proof -
  have b: "binade (1 / 3) = - 2"
    by (rule binade_unique) (simp_all add: power_int_minus_divide)
  have r: "round_ties_even (18014398509481984 / 3) = 6004799503160661"
    by (rule round_ties_even_nearest) simp_all
  show ?thesis
    by (simp add: fl_pos b power_int_minus_divide r)
qed

lemma third_of_a_hundred: "js_mul (js_div 1 3) 100 = 2345624805922133 / 70368744177664"
proof -
  have b: "binade (150119987579016525 / 4503599627370496) = 5"
    by (rule binade_unique) (simp_all add: power_int_minus_divide)
  have r: "round_ties_even (150119987579016525 / 32) = 4691249611844266"
    by (rule round_ties_even_nearest) simp_all
  show ?thesis
    unfolding js_mul_def js_div_def fl_third
    by (simp add: fl_pos b power_int_minus_divide r)
qed

section \<open>Progress\<close>

lemma step_progress_log:
  "progress_log (snd (rename_step B settings i md p st)) = progress_log st"
  "progress_log (organize_step B settings sf i md p st) = progress_log st"
  by (simp_all add: rename_step_def organize_step_def invoke_defs case_prod_beta split: sum.splits)

lemma write_step_progress_log:
  "progress_log (write_step B settings sf i file md st) = progress_log st"
  by (simp add: write_step_def invoke_update_metadata_def case_prod_beta Let_def
      step_progress_log split: sum.splits)

lemma apply_body_progress_log:
  "progress_log (apply_body B settings sf files i st)
   = progress_log st @ [js_mul (js_div (of_nat (i + 1)) (of_nat (length files))) 100]"
  by (simp add: apply_body_def Let_def write_step_progress_log split: option.splits list.splits)

lemma apply_prefix_progress_log:
  "progress_log (apply_prefix B settings sf files k st)
   = progress_log st
     @ map (\<lambda>i. js_mul (js_div (of_nat (i + 1)) (of_nat (length files))) 100) [0..<k]"
  by (induction k) (simp_all add: apply_body_progress_log)

lemma fl_nonneg: "0 \<le> x \<Longrightarrow> 0 \<le> fl x"
  using fl_mono[of 0 x] by simp

lemma quotient_mono:
  assumes "i \<le> j" and "0 < n"
  shows "js_div (of_nat (i + 1)) (of_nat n) \<le> js_div (of_nat (j + 1)) (of_nat n)"
    and "0 \<le> js_div (of_nat (i + 1)) (of_nat n)"
proof -
  have "(of_nat (i + 1) :: rat) / of_nat n \<le> of_nat (j + 1) / of_nat n"
    using assms by (intro divide_right_mono) simp_all
  moreover have q: "(0::rat) \<le> of_nat (i + 1) / of_nat n" by simp
  ultimately show "js_div (of_nat (i + 1)) (of_nat n) \<le> js_div (of_nat (j + 1)) (of_nat n)"
    unfolding js_div_def by (intro fl_mono)
  show "0 \<le> js_div (of_nat (i + 1)) (of_nat n)"
    unfolding js_div_def by (rule fl_nonneg[OF q])
qed

lemma scaled_mono:
  assumes "i \<le> j" and "0 < n" and "0 \<le> c"
  shows "js_mul (js_div (of_nat (i + 1)) (of_nat n)) c \<le> js_mul (js_div (of_nat (j + 1)) (of_nat n)) c"
    and "0 \<le> js_mul (js_div (of_nat (i + 1)) (of_nat n)) c"
proof -
  note q = quotient_mono[OF assms(1,2)]
  have nn: "0 \<le> js_div (of_nat (i + 1)) (of_nat n) * c"
    using q(2) assms(3) by simp
  have "js_div (of_nat (i + 1)) (of_nat n) * c \<le> js_div (of_nat (j + 1)) (of_nat n) * c"
    using q(1) assms(3) by (rule mult_right_mono)
  with nn show "js_mul (js_div (of_nat (i + 1)) (of_nat n)) c
                \<le> js_mul (js_div (of_nat (j + 1)) (of_nat n)) c"
    unfolding js_mul_def by (intro fl_mono)
  show "0 \<le> js_mul (js_div (of_nat (i + 1)) (of_nat n)) c"
    unfolding js_mul_def by (rule fl_nonneg[OF nn])
qed

lemma shifted_mono:
  assumes "i \<le> j" and "0 < n"
  shows "js_add 50 (js_mul (js_div (of_nat (i + 1)) (of_nat n)) 50)
         \<le> js_add 50 (js_mul (js_div (of_nat (j + 1)) (of_nat n)) 50)"
    and "50 \<le> js_add 50 (js_mul (js_div (of_nat (i + 1)) (of_nat n)) 50)"
proof -
  have c: "(0::rat) \<le> 50" by simp
  note s = scaled_mono[OF assms c]
  show "js_add 50 (js_mul (js_div (of_nat (i + 1)) (of_nat n)) 50)
         \<le> js_add 50 (js_mul (js_div (of_nat (j + 1)) (of_nat n)) 50)"
    unfolding js_add_def using s by (intro fl_mono) simp_all
  have "fl 50 \<le> fl (50 + js_mul (js_div (of_nat (i + 1)) (of_nat n)) 50)"
    using s(2) by (intro fl_mono) simp_all
  then show "50 \<le> js_add 50 (js_mul (js_div (of_nat (i + 1)) (of_nat n)) 50)"
    by (simp add: js_add_def)
qed

lemma last_quotient: "0 < n \<Longrightarrow> js_div (of_nat (n - 1 + 1)) (of_nat n) = 1"
  by (simp add: js_div_def)

lemma sorted_map_upt:
  assumes "\<And>i j. i \<le> j \<Longrightarrow> j < n \<Longrightarrow> f i \<le> (f j :: rat)"
  shows "sorted (map f [0..<n])"
  using assms by (simp add: sorted_iff_nth_mono)

text \<open>
  C7.  Over a non-empty inventory of \<open>n\<close> files, the values given to \<^verbatim>\<open>setProgress\<close> are,
  in order: in the apply pass 0 and then \<^verbatim>\<open>((i + 1) / n) * 100\<close> for each index \<open>i\<close>; in the
  resolution pass 10, 50, then \<^verbatim>\<open>50 + ((i + 1) / n) * 50\<close> for each index, then 100; each
  formula evaluated in binary64 arithmetic.  Both sequences never decrease, and the value
  after the last file is exactly 100 in both.
\<close>

theorem progress_of_a_pass:
  fixes B :: "'w backend" and settings :: app_settings and sf :: string
    and files :: "audio_file list" and w :: 'w
  defines "n \<equiv> length files"
  defines "of_apply \<equiv> \<lambda>i. js_mul (js_div (of_nat (i + 1)) (of_nat n)) 100"
    and "of_resolve \<equiv> \<lambda>i. js_add 50 (js_mul (js_div (of_nat (i + 1)) (of_nat n)) 50)"
  assumes "files \<noteq> []"
  shows "progress_log (fst (handleApplyChanges B settings sf files w)) = 0 # map of_apply [0..<n]
       \<and> progress_log (fst (resolution_pass B files w)) = [10, 50] @ map of_resolve [0..<n] @ [100]
       \<and> sorted (progress_log (fst (handleApplyChanges B settings sf files w)))
       \<and> sorted (progress_log (fst (resolution_pass B files w)))
       \<and> of_apply (n - 1) = 100
       \<and> of_resolve (n - 1) = 100"
proof -
  have n: "0 < n" using assms(4) by (simp add: n_def)
  have la: "progress_log (fst (handleApplyChanges B settings sf files w)) = 0 # map of_apply [0..<n]"
    by (simp add: handleApplyChanges_def Let_def apply_loop_final apply_prefix_progress_log
        of_apply_def n_def)
  have lr: "progress_log (fst (resolution_pass B files w))
            = [10, 50] @ map of_resolve [0..<n] @ [100]"
    by (simp add: resolution_pass_def Let_def resolve_loop_final resolve_prefix_progress_log
        of_resolve_def n_def)
  have ea: "of_apply (n - 1) = 100"
    unfolding of_apply_def last_quotient[OF n] by (simp add: js_mul_def)
  have er: "of_resolve (n - 1) = 100"
    unfolding of_resolve_def last_quotient[OF n] by (simp add: js_mul_def js_add_def)
  have c: "(0::rat) \<le> 100" by simp
  have ma: "of_apply i \<le> of_apply j" if "i \<le> j" for i j
    unfolding of_apply_def by (rule scaled_mono(1)[OF that n c])
  have mr: "of_resolve i \<le> of_resolve j" if "i \<le> j" for i j
    unfolding of_resolve_def by (rule shifted_mono(1)[OF that n])
  have "sorted (map of_apply [0..<n])" using ma by (intro sorted_map_upt)
  moreover have "0 \<le> of_apply i" for i
    unfolding of_apply_def by (rule scaled_mono(2)[OF le_refl n c])
  ultimately have sa: "sorted (0 # map of_apply [0..<n])" by auto
  have "sorted (map of_resolve [0..<n])" using mr by (intro sorted_map_upt)
  moreover have "50 \<le> of_resolve i" for i
    unfolding of_resolve_def by (rule shifted_mono(2)[OF le_refl n])
  moreover have "of_resolve i \<le> 100" if "i < n" for i
    using mr[of i "n - 1"] that er by simp
  ultimately have sr: "sorted ([10, 50] @ map of_resolve [0..<n] @ [100])"
    by (auto simp: sorted_append intro: order_trans[of 10 50])
  show ?thesis
    using ea er sa sr by (simp only: la lr)
qed

theorem progress_of_a_pass_witness:
  "progress_log (fst (handleApplyChanges test_backend test_settings ''/m'' [track_a, track_c] 0))
   = [0, js_mul (js_div 1 2) 100, js_mul (js_div 2 2) 100]
   \<and> js_mul (js_div 2 2) 100 = 100
   \<and> js_mul (js_div 1 2) 100 \<le> js_mul (js_div 2 2) 100
   \<and> js_add 50 (js_mul (js_div 2 2) 50) = 100"
  using progress_of_a_pass [where files = "[track_a, track_c]" and B = test_backend
          and settings = test_settings and sf = "''/m''" and w = 0]
  by (auto simp: upt_rec numeral_2_eq_2)

end
